theory Spec2Isabelle
  imports Main
begin

section \<open>Context classifier\<close>

text \<open>
  The environment facts the classifier reads: \<^verbatim>\<open>location.protocol\<close>,
  \<^verbatim>\<open>location.pathname\<close> and the \<^verbatim>\<open>background\<close> entry of the manifest.
  \<open>background = None\<close> is a manifest without that entry (reading \<^verbatim>\<open>.page\<close> of it
  throws a TypeError); \<open>Some None\<close> is an entry without a \<^verbatim>\<open>page\<close> (the read gives
  \<^verbatim>\<open>undefined\<close>, which is equal to no pathname).
\<close>

record env =
  protocol :: string
  pathname :: string
  background :: "string option option"

datatype error = Error string | TypeError string

definition isBackgroundPage :: "env \<Rightarrow> error + bool" where
  "isBackgroundPage e =
     (if protocol e = ''chrome-extension:'' then
        (if pathname e = ''/_generated_background_page.html'' then Inr True
         else (case background e of
                 None \<Rightarrow> Inl (TypeError ''Cannot read property 'page' of undefined'')
               | Some page \<Rightarrow> Inr (Some (pathname e) = page)))
      else Inr False)"

definition isContentScript :: "env \<Rightarrow> bool" where
  "isContentScript e = (protocol e \<noteq> ''chrome-extension:'')"

section \<open>Values, objects and the store\<close>

text \<open>
  Objects have identity: a value is a scalar or a reference into the heap, and the heap
  is the list of all objects allocated so far (an address is an index; allocation
  appends). Numbers are the integral ones. \<open>ObjectPrototype\<close> is the object
  \<^verbatim>\<open>Object.prototype\<close> of this window, which the state object inherits from.

  A heap object is an array, given by its elements, or any other object (a function is
  one too), given by its own enumerable properties. What \<^verbatim>\<open>instanceof\<close> tests is the
  prototype chain: \<open>Standard\<close> is the chain a literal of this window has, which holds
  this window's \<^verbatim>\<open>Array.prototype\<close> (for an array) and \<^verbatim>\<open>Object.prototype\<close>;
  \<open>Foreign\<close> is a chain that holds neither, as that of an object made in another
  window (a popup page that calls the store) or made with a null prototype
  (\<^verbatim>\<open>Object.create(null)\<close>). Chains rewired in other ways are not modelled.
\<close>

type_synonym addr = nat

datatype val = Undefined | Null | Bool bool | Num int | Str string | Ref addr
  | ObjectPrototype

type_synonym obj = "string \<rightharpoonup> val"

datatype proto = Standard | Foreign

datatype hobj = Arr proto "val list" | Obj proto obj

text \<open>Listener functions and the promises returned by \<^verbatim>\<open>setState\<close> are compared by
  identity only, so each is a number.\<close>

type_synonym lid = nat
type_synonym cid = nat

text \<open>
  The deferred work of \<^verbatim>\<open>setState\<close>. A timer is a pending \<^verbatim>\<open>timeout(0)\<close>; a job is a
  promise reaction waiting in the microtask queue. \<open>c\<close> is the call whose \<^verbatim>\<open>resolve\<close> the
  chain ends in.
\<close>

datatype timer = TCommit cid | TResolve cid

datatype job = JCommit cid | JResolve cid | JGetState cid

text \<open>
  A \<^verbatim>\<open>setState\<close> call makes two promises: the one its executor resolves, and the
  one \<^verbatim>\<open>.then(getState)\<close> derives from it, which is returned. \<open>Pending\<close>: \<^verbatim>\<open>resolve\<close>
  has not been called; \<open>Resolved\<close>: it has, and the \<^verbatim>\<open>getState\<close> reaction is queued;
  \<open>Done r\<close>: the returned promise is settled with \<open>r\<close>.
\<close>

datatype settled = Fulfilled val | Rejected error

datatype pstate = Pending | Resolved | Done settled

text \<open>What the module does, in the order it happens: the state object is assigned to,
  a listener is called with an argument, the promise returned by call \<open>c\<close> is
  settled.\<close>

datatype event = Commit | Call lid val | Settle cid settled

text \<open>
  The module-level variables (\<^verbatim>\<open>storeReady\<close>, \<^verbatim>\<open>state\<close>, \<^verbatim>\<open>listeners\<close>,
  \<^verbatim>\<open>shouldUpdateState\<close>, \<^verbatim>\<open>composeNextState\<close>), whether \<^verbatim>\<open>storePromise\<close> has been
  resolved, the heap, the two queues of the event loop, the promises of every
  \<^verbatim>\<open>setState\<close> call so far (a call's number is its index), and the trace of events.
  The object \<^verbatim>\<open>state\<close> never leaves the module (only copies of it do), so it is kept
  by content.
\<close>

record store =
  storeReady :: bool
  state :: obj
  listeners :: "lid list"
  shouldUpdateState :: bool
  composeNextState :: "obj \<Rightarrow> obj"
  storePromise :: bool
  heap :: "hobj list"
  timers :: "timer list"
  jobs :: "job list"
  promises :: "pstate list"
  trace :: "event list"

text \<open>The module as loaded, before any call.\<close>

definition initial :: store where
  "initial = \<lparr> storeReady = False, state = Map.empty, listeners = [],
     shouldUpdateState = True, composeNextState = (\<lambda>s. s), storePromise = False,
     heap = [], timers = [], jobs = [], promises = [], trace = [] \<rparr>"

definition notConnectedError :: "string \<Rightarrow> error" where
  "notConnectedError name =
     Error (name @ '' is not initialized. Call this function after initStore() has completed.'')"

definition alloc :: "hobj \<Rightarrow> store \<Rightarrow> val \<times> store" where
  "alloc x s = (Ref (length (heap s)), s\<lparr>heap := heap s @ [x]\<rparr>)"

section \<open>getState\<close>

text \<open>
  The functions that \<^verbatim>\<open>Object.prototype\<close> holds. The state object is made by
  \<^verbatim>\<open>{}\<close>, so \<^verbatim>\<open>state[key]\<close> finds them under these keys when the state has no
  property of its own there, and finds \<^verbatim>\<open>Object.prototype\<close> itself under
  \<^verbatim>\<open>__proto__\<close>. A function passes \<^verbatim>\<open>instanceof Object\<close> and none of these has an
  enumerable property of its own; \<^verbatim>\<open>Object.prototype\<close> has a null prototype and passes
  neither test.
\<close>

definition objectPrototypeFunctions :: "string list" where
  "objectPrototypeFunctions =
     [''constructor'', ''hasOwnProperty'', ''isPrototypeOf'', ''propertyIsEnumerable'',
      ''toLocaleString'', ''toString'', ''valueOf'', ''__defineGetter__'',
      ''__defineSetter__'', ''__lookupGetter__'', ''__lookupSetter__'']"

text \<open>The argument of \<^verbatim>\<open>getState\<close>: a function (given the address of the copy it is
  called with, and the heap) or any other value; no argument is \<open>Sel Undefined\<close>.\<close>

datatype selector = Sel val | SelFn "addr \<Rightarrow> hobj list \<Rightarrow> val"

definition getState :: "selector \<Rightarrow> store \<Rightarrow> (error + val) \<times> store" where
  "getState keyOrFn s =
     (if \<not> storeReady s then (Inl (notConnectedError ''store.getState''), s)
      else (case keyOrFn of
          Sel (Str k) \<Rightarrow>
            (if k \<noteq> [] then
               (case state s k of
                  None \<Rightarrow>
                    (if k \<in> set objectPrototypeFunctions then
                       (let (r, s') = alloc (Obj Standard Map.empty) s in (Inr r, s'))
                     else if k = ''__proto__'' then (Inr ObjectPrototype, s)
                     else (Inr Undefined, s))
                | Some (Ref a) \<Rightarrow>
                    (if a < length (heap s) then
                       (case heap s ! a of
                          Arr Standard xs \<Rightarrow>
                            (let (r, s') = alloc (Arr Standard xs) s in (Inr r, s'))
                        | Obj Standard m \<Rightarrow>
                            (let (r, s') = alloc (Obj Standard m) s in (Inr r, s'))
                        | Arr Foreign xs \<Rightarrow> (Inr (Ref a), s)
                        | Obj Foreign m \<Rightarrow> (Inr (Ref a), s))
                     else (Inr (Ref a), s))
                | Some v \<Rightarrow> (Inr v, s))
             else (let (r, s') = alloc (Obj Standard (state s)) s in (Inr r, s')))
        | SelFn f \<Rightarrow>
            (let (r, s') = alloc (Obj Standard (state s)) s
             in (Inr (f (length (heap s)) (heap s')), s'))
        | Sel v \<Rightarrow> (let (r, s') = alloc (Obj Standard (state s)) s in (Inr r, s'))))"

text \<open>An assignment \<^verbatim>\<open>o[k] = v\<close> by a caller to an object it holds.\<close>

definition assignProp :: "addr \<Rightarrow> string \<Rightarrow> val \<Rightarrow> store \<Rightarrow> store" where
  "assignProp a k v s =
     (if a < length (heap s) then
        (case heap s ! a of
           Obj p m \<Rightarrow> s\<lparr>heap := (heap s)[a := Obj p (m(k \<mapsto> v))]\<rparr>
         | Arr p xs \<Rightarrow> s)
      else s)"

text \<open>The prototype chain of a heap object.\<close>

fun chain :: "hobj \<Rightarrow> proto" where
  "chain (Arr p xs) = p"
| "chain (Obj p m) = p"

section \<open>The listener registry\<close>

definition addListener :: "lid \<Rightarrow> store \<Rightarrow> (error + val) \<times> store" where
  "addListener listener s =
     (if storeReady s then (Inr Undefined, s\<lparr>listeners := listeners s @ [listener]\<rparr>)
      else (Inl (notConnectedError ''store.onStateChange.addListener''), s))"

definition removeListener :: "lid \<Rightarrow> store \<Rightarrow> (error + val) \<times> store" where
  "removeListener listener s =
     (if storeReady s then
        (Inr Undefined, s\<lparr>listeners := filter (\<lambda>l. l \<noteq> listener) (listeners s)\<rparr>)
      else (Inl (notConnectedError ''store.onStateChange.removeListener''), s))"

text \<open>The body evaluates \<^verbatim>\<open>listeners.some(...)\<close> and drops the result.\<close>

definition hasListener :: "lid \<Rightarrow> store \<Rightarrow> (error + val) \<times> store" where
  "hasListener listener s =
     (if storeReady s then
        (let found = list_ex (\<lambda>l. l = listener) (listeners s) in (Inr Undefined, s))
      else (Inl (notConnectedError ''store.onStateChange.hasListener''), s))"

definition hasListeners :: "store \<Rightarrow> (error + val) \<times> store" where
  "hasListeners s = (Inr (Bool (length (listeners s) \<noteq> 0)), s)"

text \<open>\<^verbatim>\<open>listeners.forEach(fn => fn(getState()))\<close>: the array is read once, a throwing
  \<^verbatim>\<open>getState\<close> ends the loop. A listener is called with the copy, and the call is
  recorded in the trace; what the listener does is outside the module, and it is taken
  to return without calling the store.\<close>

fun forEachListener :: "lid list \<Rightarrow> store \<Rightarrow> (error + val) \<times> store" where
  "forEachListener [] s = (Inr Undefined, s)"
| "forEachListener (fn # fns) s =
     (case getState (Sel Undefined) s of
        (Inl e, s') \<Rightarrow> (Inl e, s')
      | (Inr v, s') \<Rightarrow> forEachListener fns (s'\<lparr>trace := trace s' @ [Call fn v]\<rparr>))"

definition fireListeners :: "store \<Rightarrow> (error + val) \<times> store" where
  "fireListeners s = forEachListener (listeners s) s"

section \<open>initStore\<close>

text \<open>\<^verbatim>\<open>initStore\<close> returns the object \<^verbatim>\<open>store\<close>, the one handle there is; its argument
  is given by the properties \<^verbatim>\<open>Object.assign\<close> reads from it.\<close>

datatype handle = Store

definition initStore :: "env \<Rightarrow> obj \<Rightarrow> store \<Rightarrow> (error + handle) \<times> store" where
  "initStore e initialState s =
     (if storeReady s then (Inl (Error ''Cannot initialize the store twice.''), s)
      else (case isBackgroundPage e of
              Inl err \<Rightarrow> (Inl err, s)
            | Inr False \<Rightarrow>
                (Inl (Error ''Must initialize the store in the background page.''), s)
            | Inr True \<Rightarrow>
                (Inr Store,
                 s\<lparr>state := state s ++ initialState, storePromise := True,
                   storeReady := True\<rparr>)))"

section \<open>setState and the event loop\<close>

text \<open>
  The argument of \<^verbatim>\<open>setState\<close>: a function from the previous state to the properties
  to merge (taken to be pure and to return), or any other value, given by the properties
  the spread \<^verbatim>\<open>...newStateOrFn\<close> reads from it. The candidate states the chain passes
  on are temporaries of the commit and are kept by content. The returned promise is the
  number of the call.

  \<^verbatim>\<open>timeout\<close> is imported from another package. Modelled from the spec: \<^verbatim>\<open>timeout(0)\<close>
  returns a promise that is fulfilled, with \<^verbatim>\<open>undefined\<close>, by a task of its own after
  the current synchronous phase; such tasks run in the order the timeouts were made.
\<close>

datatype update = Partial obj | Fn "obj \<Rightarrow> obj"

definition setState :: "update \<Rightarrow> store \<Rightarrow> (error + cid) \<times> store" where
  "setState newStateOrFn s =
     (if \<not> storeReady s then (Inl (notConnectedError ''store.setState''), s)
      else
        (let c = length (promises s);
             setter = composeNextState s;
             fn = (case newStateOrFn of
                     Fn f \<Rightarrow> (\<lambda>prevState. prevState ++ f prevState)
                   | Partial m \<Rightarrow> (\<lambda>prevState. prevState ++ m));
             s1 = s\<lparr>promises := promises s @ [Pending],
                    composeNextState := (\<lambda>nextState. fn (setter nextState))\<rparr>;
             s2 = (if shouldUpdateState s1
                   then s1\<lparr>timers := timers s1 @ [TCommit c], shouldUpdateState := False\<rparr>
                   else s1);
             s3 = s2\<lparr>timers := timers s2 @ [TResolve c]\<rparr>
         in (Inr c, s3)))"

text \<open>The properties a spread reads from a value; only copies of the state object are
  spread here, anything else is taken to have none.\<close>

definition props :: "hobj list \<Rightarrow> val \<Rightarrow> obj" where
  "props h v =
     (case v of
        Ref a \<Rightarrow> (if a < length h then (case h ! a of Obj p m \<Rightarrow> m | Arr p xs \<Rightarrow> Map.empty)
                  else Map.empty)
      | _ \<Rightarrow> Map.empty)"

text \<open>The callback of the first \<^verbatim>\<open>timeout(0).then(...)\<close> of a batch window.\<close>

definition commit :: "store \<Rightarrow> (error + val) \<times> store" where
  "commit s =
     (case getState (Sel Undefined) s of
        (Inl e, s') \<Rightarrow> (Inl e, s')
      | (Inr copy, s1) \<Rightarrow>
          (let nextState = composeNextState s1 (props (heap s1) copy);
               s2 = s1\<lparr>state := state s1 ++ nextState, trace := trace s1 @ [Commit]\<rparr>;
               s3 = s2\<lparr>shouldUpdateState := True, composeNextState := (\<lambda>s. s)\<rparr>
           in forEachListener (listeners s3) s3))"

text \<open>
  One promise reaction. \<open>JCommit c\<close> is \<^verbatim>\<open>.then(() => {...})\<close>: when the callback returns,
  the reaction \<^verbatim>\<open>.then(resolve)\<close> is queued; when it throws, nothing is. \<open>JResolve c\<close> is
  a call of \<^verbatim>\<open>resolve\<close>, which has an effect the first time only and then queues
  \<^verbatim>\<open>.then(getState)\<close>. \<open>JGetState c\<close> calls \<^verbatim>\<open>getState(undefined)\<close> and settles the
  promise that \<^verbatim>\<open>setState\<close> returned.
\<close>

fun runJob :: "job \<Rightarrow> store \<Rightarrow> store" where
  "runJob (JCommit c) s =
     (case commit s of
        (Inl e, s') \<Rightarrow> s'
      | (Inr v, s') \<Rightarrow> s'\<lparr>jobs := jobs s' @ [JResolve c]\<rparr>)"
| "runJob (JResolve c) s =
     (if c < length (promises s) \<and> promises s ! c = Pending
      then s\<lparr>promises := (promises s)[c := Resolved], jobs := jobs s @ [JGetState c]\<rparr>
      else s)"
| "runJob (JGetState c) s =
     (case getState (Sel Undefined) s of
        (Inl e, s') \<Rightarrow>
          s'\<lparr>promises := (promises s')[c := Done (Rejected e)],
             trace := trace s' @ [Settle c (Rejected e)]\<rparr>
      | (Inr v, s') \<Rightarrow>
          s'\<lparr>promises := (promises s')[c := Done (Fulfilled v)],
             trace := trace s' @ [Settle c (Fulfilled v)]\<rparr>)"

text \<open>A timer task fulfils its \<^verbatim>\<open>timeout(0)\<close> promise, which queues the reaction.\<close>

fun fire :: "timer \<Rightarrow> store \<Rightarrow> store" where
  "fire (TCommit c) s = s\<lparr>jobs := jobs s @ [JCommit c]\<rparr>"
| "fire (TResolve c) s = s\<lparr>jobs := jobs s @ [JResolve c]\<rparr>"

text \<open>The event loop, run until nothing is left: queued reactions first, then the
  next timer task.\<close>

function run :: "store \<Rightarrow> store" where
  "run s =
     (case jobs s of
        j # js \<Rightarrow> run (runJob j (s\<lparr>jobs := js\<rparr>))
      | [] \<Rightarrow> (case timers s of
                 [] \<Rightarrow> s
               | t # ts \<Rightarrow> run (fire t (s\<lparr>timers := ts\<rparr>))))"
  by pat_completeness auto
termination
proof (relation "measure (\<lambda>s. sum_list (map (\<lambda>j. case j of JCommit c \<Rightarrow> 3 | JResolve c \<Rightarrow> 2
                                   | JGetState c \<Rightarrow> Suc 0) (jobs s)) + 4 * length (timers s))")
  show "wf (measure (\<lambda>s. sum_list (map (\<lambda>j. case j of JCommit c \<Rightarrow> 3 | JResolve c \<Rightarrow> 2
                                   | JGetState c \<Rightarrow> Suc 0) (jobs s)) + 4 * length (timers s)))"
    by simp
next
  fix s :: store and j js
  assume js: "jobs s = j # js"
  have g: "jobs (snd (getState (Sel Undefined) x)) = jobs x \<and>
           timers (snd (getState (Sel Undefined) x)) = timers x" for x
    by (simp add: getState_def alloc_def)
  have f: "jobs (snd (forEachListener ls x)) = jobs x \<and>
           timers (snd (forEachListener ls x)) = timers x" for ls x
  proof (induction ls arbitrary: x)
    case Nil
    show ?case by simp
  next
    case (Cons l ls)
    obtain r x' where gx: "getState (Sel Undefined) x = (r, x')"
      by (cases "getState (Sel Undefined) x")
    with g [of x] have x': "jobs x' = jobs x \<and> timers x' = timers x"
      by simp
    show ?case
    proof (cases r)
      case (Inl e)
      with gx x' show ?thesis by simp
    next
      case (Inr v)
      with gx x' Cons.IH [of "x'\<lparr>trace := trace x' @ [Call l v]\<rparr>"] show ?thesis
        by simp
    qed
  qed
  have c: "jobs (snd (commit x)) = jobs x \<and> timers (snd (commit x)) = timers x" for x
  proof -
    obtain r x' where gx: "getState (Sel Undefined) x = (r, x')"
      by (cases "getState (Sel Undefined) x")
    with g [of x] have x': "jobs x' = jobs x \<and> timers x' = timers x"
      by simp
    show ?thesis
    proof (cases r)
      case (Inl e)
      with gx x' show ?thesis by (simp add: commit_def)
    next
      case (Inr v)
      with gx x' show ?thesis by (simp add: commit_def Let_def f)
    qed
  qed
  show "(runJob j (s\<lparr>jobs := js\<rparr>), s)
        \<in> measure (\<lambda>s. sum_list (map (\<lambda>j. case j of JCommit c \<Rightarrow> 3 | JResolve c \<Rightarrow> 2
                                   | JGetState c \<Rightarrow> Suc 0) (jobs s)) + 4 * length (timers s))"
  proof (cases j)
    case (JCommit n)
    with js c [of "s\<lparr>jobs := js\<rparr>"] show ?thesis
      by (cases "commit (s\<lparr>jobs := js\<rparr>)") (auto split: sum.splits)
  next
    case (JResolve n)
    with js show ?thesis by simp
  next
    case (JGetState n)
    with js g [of "s\<lparr>jobs := js\<rparr>"] show ?thesis
      by (cases "getState (Sel Undefined) (s\<lparr>jobs := js\<rparr>)") (auto split: sum.splits)
  qed
next
  fix s :: store and t ts
  assume "jobs s = []" and "timers s = t # ts"
  then show "(fire t (s\<lparr>timers := ts\<rparr>), s)
        \<in> measure (\<lambda>s. sum_list (map (\<lambda>j. case j of JCommit c \<Rightarrow> 3 | JResolve c \<Rightarrow> 2
                                   | JGetState c \<Rightarrow> Suc 0) (jobs s)) + 4 * length (timers s))"
    by (cases t) simp_all
qed

declare run.simps [simp del]

section \<open>Sequences of calls\<close>

text \<open>Calls of \<^verbatim>\<open>addListener\<close> and \<^verbatim>\<open>removeListener\<close>, one after the other.\<close>

datatype registryOp = Add lid | Remove lid

fun applyOp :: "registryOp \<Rightarrow> store \<Rightarrow> store" where
  "applyOp (Add f) s = snd (addListener f s)"
| "applyOp (Remove f) s = snd (removeListener f s)"

fun applyOps :: "registryOp list \<Rightarrow> store \<Rightarrow> store" where
  "applyOps [] s = s"
| "applyOps (x # xs) s = applyOps xs (applyOp x s)"

text \<open>No \<^verbatim>\<open>addListener\<close> of the sequence is given a listener that is in the registry
  at the time of the call.\<close>

fun addsFresh :: "registryOp list \<Rightarrow> store \<Rightarrow> bool" where
  "addsFresh [] s = True"
| "addsFresh (Add f # xs) s = (f \<notin> set (listeners s) \<and> addsFresh xs (applyOp (Add f) s))"
| "addsFresh (Remove f # xs) s = addsFresh xs (applyOp (Remove f) s)"

text \<open>Calls of \<^verbatim>\<open>setState\<close> made one after the other, in one synchronous phase.\<close>

fun setStates :: "update list \<Rightarrow> store \<Rightarrow> store" where
  "setStates [] s = s"
| "setStates (u # us) s = setStates us (snd (setState u s))"

text \<open>The merge of one update on top of a state, key by key, the update's keys
  winning; a function is given the state it is merged into. The left-to-right merge of
  a list of updates is \<open>foldl mergeUpdate\<close>.\<close>

definition mergeUpdate :: "obj \<Rightarrow> update \<Rightarrow> obj" where
  "mergeUpdate prev u = (case u of Partial m \<Rightarrow> prev ++ m | Fn f \<Rightarrow> prev ++ f prev)"

text \<open>
  A batch window starts on a ready store with \<^verbatim>\<open>shouldUpdateState\<close> true; what is
  still queued then belongs to earlier calls, whose commit is done: their
  \<^verbatim>\<open>resolve\<close> and \<^verbatim>\<open>getState\<close> reactions and their \<^verbatim>\<open>timeout(0).then(resolve)\<close> timers.
\<close>

fun lateJob :: "nat \<Rightarrow> job \<Rightarrow> bool" where
  "lateJob n (JCommit c) = False"
| "lateJob n (JResolve c) = (c < n)"
| "lateJob n (JGetState c) = (c < n)"

fun lateTimer :: "nat \<Rightarrow> timer \<Rightarrow> bool" where
  "lateTimer n (TCommit c) = False"
| "lateTimer n (TResolve c) = (c < n)"

definition batchStart :: "store \<Rightarrow> bool" where
  "batchStart s = (storeReady s \<and> shouldUpdateState s \<and>
     list_all (lateJob (length (promises s))) (jobs s) \<and>
     list_all (lateTimer (length (promises s))) (timers s))"

text \<open>How often listener \<open>l\<close> is called in a trace.\<close>

fun callsOf :: "lid \<Rightarrow> event list \<Rightarrow> nat" where
  "callsOf l [] = 0"
| "callsOf l (Call l' v # es) = (if l' = l then 1 else 0) + callsOf l es"
| "callsOf l (e # es) = callsOf l es"

text \<open>
  Used in the proofs. \<open>follows n s s'\<close>: from \<open>s\<close> to \<open>s'\<close> nothing has happened but
  the settling of promises of calls before \<open>n\<close>. The weight of a job bounds the
  reactions it still leads to. Then closed forms: the calls of the listeners \<open>ls\<close>,
  each with the object at the next address from \<open>a\<close>; the settling of \<open>k\<close> promises
  from \<open>c\<close>, each with the object at the next address from \<open>a\<close>, as events and as the
  promise table.
\<close>

definition follows :: "nat \<Rightarrow> store \<Rightarrow> store \<Rightarrow> bool" where
  "follows n s s' =
     (storeReady s' = storeReady s \<and> state s' = state s \<and> listeners s' = listeners s \<and>
      shouldUpdateState s' = shouldUpdateState s \<and>
      composeNextState s' = composeNextState s \<and>
      length (promises s') = length (promises s) \<and>
      (\<forall>c\<ge>n. promises s' ! c = promises s ! c) \<and>
      (\<exists>ext. heap s' = heap s @ ext) \<and>
      (\<exists>pre. trace s' = trace s @ pre \<and> (\<forall>e\<in>set pre. \<exists>c r. e = Settle c r \<and> c < n)))"

fun jobWeight :: "job \<Rightarrow> nat" where
  "jobWeight (JCommit c) = 3"
| "jobWeight (JResolve c) = 2"
| "jobWeight (JGetState c) = 1"

fun callsFrom :: "addr \<Rightarrow> lid list \<Rightarrow> event list" where
  "callsFrom a [] = []"
| "callsFrom a (l # ls) = Call l (Ref a) # callsFrom (Suc a) ls"

fun settlesFrom :: "cid \<Rightarrow> addr \<Rightarrow> nat \<Rightarrow> event list" where
  "settlesFrom c a 0 = []"
| "settlesFrom c a (Suc k) = Settle c (Fulfilled (Ref a)) # settlesFrom (Suc c) (Suc a) k"

fun settleAll :: "cid \<Rightarrow> addr \<Rightarrow> nat \<Rightarrow> pstate list \<Rightarrow> pstate list" where
  "settleAll c a 0 ps = ps"
| "settleAll c a (Suc k) ps = settleAll (Suc c) (Suc a) k (ps[c := Done (Fulfilled (Ref a))])"

text \<open>
  One step of the event loop, and the stores the module can be in: after \<^verbatim>\<open>initStore\<close>
  has returned, any calls of the operations by the code around the module, and any steps
  of the loop, in any order.
\<close>

definition step :: "store \<Rightarrow> store" where
  "step s =
     (case jobs s of
        j # js \<Rightarrow> runJob j (s\<lparr>jobs := js\<rparr>)
      | [] \<Rightarrow> (case timers s of
                 [] \<Rightarrow> s
               | t # ts \<Rightarrow> fire t (s\<lparr>timers := ts\<rparr>)))"

inductive reachable :: "store \<Rightarrow> bool" where
  init: "initStore e i initial = (Inr h, s) \<Longrightarrow> reachable s"
| get: "reachable s \<Longrightarrow> reachable (snd (getState k s))"
| set: "reachable s \<Longrightarrow> reachable (snd (setState u s))"
| add: "reachable s \<Longrightarrow> reachable (snd (addListener f s))"
| remove: "reachable s \<Longrightarrow> reachable (snd (removeListener f s))"
| loop: "reachable s \<Longrightarrow> reachable (step s)"

text \<open>
  What holds of every such store: it is ready; with \<^verbatim>\<open>shouldUpdateState\<close> true the
  chain is the identity and no commit is queued, with it false exactly one is; and what
  is queued belongs to calls already made.
\<close>

fun timerCall :: "timer \<Rightarrow> cid" where
  "timerCall (TCommit c) = c"
| "timerCall (TResolve c) = c"

fun jobCall :: "job \<Rightarrow> cid" where
  "jobCall (JCommit c) = c"
| "jobCall (JResolve c) = c"
| "jobCall (JGetState c) = c"

fun commitTimer :: "timer \<Rightarrow> bool" where
  "commitTimer (TCommit c) = True"
| "commitTimer (TResolve c) = False"

fun commitJob :: "job \<Rightarrow> bool" where
  "commitJob (JCommit c) = True"
| "commitJob j = False"

definition commitsPending :: "store \<Rightarrow> nat" where
  "commitsPending s = length (filter commitTimer (timers s)) + length (filter commitJob (jobs s))"

definition scheduled :: "store \<Rightarrow> bool" where
  "scheduled s =
     (storeReady s \<and>
      (shouldUpdateState s \<longrightarrow> composeNextState s = (\<lambda>x. x)) \<and>
      commitsPending s = (if shouldUpdateState s then 0 else 1) \<and>
      list_all (\<lambda>t. timerCall t < length (promises s)) (timers s) \<and>
      list_all (\<lambda>j. jobCall j < length (promises s)) (jobs s))"

section \<open>Example inputs\<close>

definition owner_env :: env where
  "owner_env = \<lparr> protocol = ''chrome-extension:'',
     pathname = ''/_generated_background_page.html'', background = None \<rparr>"

definition popup_env :: env where
  "popup_env = \<lparr> protocol = ''chrome-extension:'', pathname = ''/popup.html'',
     background = Some (Some ''background.html'') \<rparr>"

definition apples :: store where
  "apples = snd (initStore owner_env [''apples'' \<mapsto> Num 2] initial)"

text \<open>A store whose state has the key \<^verbatim>\<open>''\<close>, a scalar and an array.\<close>

definition basket :: store where
  "basket = snd (initStore owner_env [[] \<mapsto> Num 7, ''apples'' \<mapsto> Num 2, ''list'' \<mapsto> Ref 0]
                   (initial\<lparr>heap := [Arr Standard [Num 1, Str ''a'']]\<rparr>))"

text \<open>A store whose state holds, under \<^verbatim>\<open>o\<close>, an object made by
  \<^verbatim>\<open>Object.create(null)\<close> and given the property \<^verbatim>\<open>x = 1\<close>.\<close>

definition crate :: store where
  "crate = snd (initStore owner_env [''o'' \<mapsto> Ref 0]
                  (initial\<lparr>heap := [Obj Foreign [''x'' \<mapsto> Num 1]]\<rparr>))"

text \<open>\<^verbatim>\<open>s => ({apples: s.apples + 1})\<close>\<close>

definition addApple :: "obj \<Rightarrow> obj" where
  "addApple prevState =
     (case prevState ''apples'' of
        Some (Num n) \<Rightarrow> [''apples'' \<mapsto> Num (n + 1)]
      | _ \<Rightarrow> Map.empty)"

text \<open>The store \<open>apples\<close> with two listeners registered.\<close>

definition watched :: store where
  "watched = snd (addListener 8 (snd (addListener 5 apples)))"

section \<open>Properties of the context classifier\<close>

text \<open>
  Claim C9. In no environment are \<^verbatim>\<open>isBackgroundPage\<close> and \<^verbatim>\<open>isContentScript\<close> both
  true, and they are not complements of each other: there is an environment (the
  extension's scheme, a path that is not the background page's) where both are false.
\<close>

theorem context_predicates_exclusive_not_complementary:
  "\<not> (isBackgroundPage e = Inr True \<and> isContentScript e) \<and>
   (\<exists>e'. protocol e' = ''chrome-extension:'' \<and> isBackgroundPage e' = Inr False \<and>
         \<not> isContentScript e')"
proof
  show "\<not> (isBackgroundPage e = Inr True \<and> isContentScript e)"
    by (auto simp: isBackgroundPage_def isContentScript_def)
  have "protocol popup_env = ''chrome-extension:'' \<and> isBackgroundPage popup_env = Inr False \<and>
        \<not> isContentScript popup_env"
    by (simp add: isBackgroundPage_def isContentScript_def popup_env_def)
  then show "\<exists>e'. protocol e' = ''chrome-extension:'' \<and> isBackgroundPage e' = Inr False \<and>
                  \<not> isContentScript e'" ..
qed

theorem context_predicates_exclusive_witness:
  "isBackgroundPage owner_env = Inr True \<and> \<not> isContentScript owner_env"
  using context_predicates_exclusive_not_complementary [of owner_env]
  by (simp add: isBackgroundPage_def owner_env_def)

section \<open>Properties of the guards\<close>

lemma apples_eq:
  "apples = initial\<lparr>state := [''apples'' \<mapsto> Num 2], storePromise := True,
                    storeReady := True\<rparr>"
  by (simp add: apples_def initStore_def initial_def isBackgroundPage_def owner_env_def)

lemma basket_eq:
  "basket = initial\<lparr>heap := [Arr Standard [Num 1, Str ''a'']],
                    state := [[] \<mapsto> Num 7, ''apples'' \<mapsto> Num 2, ''list'' \<mapsto> Ref 0],
                    storePromise := True, storeReady := True\<rparr>"
  by (simp add: basket_def initStore_def initial_def isBackgroundPage_def owner_env_def)

lemma watched_eq:
  "watched = initial\<lparr>state := [''apples'' \<mapsto> Num 2], storePromise := True,
                    storeReady := True, listeners := [5, 8]\<rparr>"
  by (simp add: watched_def addListener_def apples_eq initial_def)

text \<open>The five operations that check \<^verbatim>\<open>storeReady\<close> throw the error that names them,
  and leave the store as it was.\<close>

lemma guarded_operations:
  assumes "\<not> storeReady s"
  shows "getState sel s = (Inl (notConnectedError ''store.getState''), s)"
    and "setState u s = (Inl (notConnectedError ''store.setState''), s)"
    and "addListener f s = (Inl (notConnectedError ''store.onStateChange.addListener''), s)"
    and "removeListener f s
           = (Inl (notConnectedError ''store.onStateChange.removeListener''), s)"
    and "hasListener f s = (Inl (notConnectedError ''store.onStateChange.hasListener''), s)"
  using assms
  by (simp_all add: getState_def setState_def addListener_def removeListener_def
      hasListener_def)

text \<open>
  Claim C2. Every operation of the store, called while \<^verbatim>\<open>storeReady\<close> is false, is to
  throw the error that names it. \<^verbatim>\<open>hasListeners\<close> and \<^verbatim>\<open>fireListeners\<close> have no check:
  on the module as loaded the first returns \<^verbatim>\<open>false\<close> and the second returns
  \<^verbatim>\<open>undefined\<close>, and nothing is thrown.
\<close>

theorem hasListeners_fireListeners_before_initStore:
  "hasListeners initial = (Inr (Bool False), initial) \<and>
   fireListeners initial = (Inr Undefined, initial)"
  by (simp add: hasListeners_def fireListeners_def initial_def)

text \<open>
  Claim C6. \<^verbatim>\<open>initStore\<close> on a store that is ready throws ``Cannot initialize the store
  twice.'', in particular when called again after a call that returned; on a store that
  is not ready, in an environment that is not the background page, it throws ``Must
  initialize the store in the background page.''; and whenever it throws, the store
  (state, listeners, readiness flag and all the rest) is as it was before the call.
\<close>

theorem initStore_guards_leave_store_unchanged:
  "(storeReady s \<longrightarrow>
      initStore e i s = (Inl (Error ''Cannot initialize the store twice.''), s)) \<and>
   (\<forall>v s1. initStore e i s = (Inr v, s1) \<longrightarrow>
      initStore e' i' s1 = (Inl (Error ''Cannot initialize the store twice.''), s1)) \<and>
   (\<not> storeReady s \<and> isBackgroundPage e = Inr False \<longrightarrow>
      initStore e i s
        = (Inl (Error ''Must initialize the store in the background page.''), s)) \<and>
   (\<forall>err. fst (initStore e i s) = Inl err \<longrightarrow> snd (initStore e i s) = s)"
  by (auto simp: initStore_def split: sum.splits bool.splits)

theorem initStore_guards_witness:
  "initStore owner_env [''apples'' \<mapsto> Num 2] initial = (Inr Store, apples) \<and>
   storeReady apples \<and>
   initStore owner_env [''pears'' \<mapsto> Num 1] apples
     = (Inl (Error ''Cannot initialize the store twice.''), apples) \<and>
   \<not> storeReady initial \<and> isBackgroundPage popup_env = Inr False \<and>
   initStore popup_env [''pears'' \<mapsto> Num 1] initial
     = (Inl (Error ''Must initialize the store in the background page.''), initial)"
  using initStore_guards_leave_store_unchanged
          [of initial owner_env "[''apples'' \<mapsto> Num 2]" owner_env "[''pears'' \<mapsto> Num 1]"]
        initStore_guards_leave_store_unchanged
          [of initial popup_env "[''pears'' \<mapsto> Num 1]"]
  by (simp add: apples_eq initStore_def initial_def isBackgroundPage_def owner_env_def
      popup_env_def)

section \<open>Properties of getState\<close>

text \<open>
  Claim C10. On a ready store \<^verbatim>\<open>getState('')\<close> does not read the key \<^verbatim>\<open>''\<close>: it does
  what \<^verbatim>\<open>getState()\<close> does, and returns a new object that holds the whole state.
\<close>

theorem getState_empty_string_selector:
  "storeReady s \<Longrightarrow>
   getState (Sel (Str [])) s
     = (Inr (Ref (length (heap s))), s\<lparr>heap := heap s @ [Obj Standard (state s)]\<rparr>) \<and>
   getState (Sel (Str [])) s = getState (Sel Undefined) s"
  by (simp add: getState_def alloc_def)

theorem getState_empty_string_selector_witness:
  "storeReady basket \<and> state basket [] = Some (Num 7) \<and>
   getState (Sel (Str [])) basket
     = (Inr (Ref 1),
        basket\<lparr>heap := [Arr Standard [Num 1, Str ''a''], Obj Standard (state basket)]\<rparr>)"
  using getState_empty_string_selector [of basket]
  by (simp add: basket_eq initial_def)

text \<open>Whatever its argument, \<^verbatim>\<open>getState\<close> changes nothing but the heap, and in the
  heap nothing that was there.\<close>

lemma getState_fields:
  "storeReady (snd (getState k s)) = storeReady s \<and> state (snd (getState k s)) = state s \<and>
   listeners (snd (getState k s)) = listeners s \<and>
   shouldUpdateState (snd (getState k s)) = shouldUpdateState s \<and>
   composeNextState (snd (getState k s)) = composeNextState s \<and>
   storePromise (snd (getState k s)) = storePromise s \<and>
   timers (snd (getState k s)) = timers s \<and> jobs (snd (getState k s)) = jobs s \<and>
   promises (snd (getState k s)) = promises s \<and> trace (snd (getState k s)) = trace s \<and>
   take (length (heap s)) (heap (snd (getState k s))) = heap s"
proof (cases "storeReady s")
  case False
  then show ?thesis by (simp add: getState_def)
next
  case True
  show ?thesis
  proof (cases k)
    case (SelFn f)
    with True show ?thesis by (simp add: getState_def alloc_def)
  next
    case (Sel v)
    show ?thesis
    proof (cases v)
      case (Str key)
      show ?thesis
      proof (cases "state s key")
        case None
        with True Sel Str show ?thesis
          by (simp add: getState_def alloc_def)
      next
        case (Some w)
        show ?thesis
        proof (cases w)
          case (Ref a)
          with True Sel Str Some show ?thesis
            by (simp add: getState_def alloc_def split: hobj.split proto.split)
        qed (use True Sel Str Some in \<open>simp_all add: getState_def alloc_def\<close>)
      qed
    qed (use True Sel in \<open>simp_all add: getState_def alloc_def\<close>)
  qed
qed

lemma getState_heap_only: "\<exists>h. snd (getState k s) = s\<lparr>heap := h\<rparr>"
proof (rule exI [of _ "heap (snd (getState k s))"], rule store.equality)
qed (simp_all add: getState_fields)

text \<open>
  The parts of claim C8 that hold. On a ready store \<^verbatim>\<open>getState\<close>, whatever its
  argument, leaves the state and every object of the heap as they were. Two calls of
  \<^verbatim>\<open>getState()\<close> in a row return two new objects at different addresses, each holding
  the state; an assignment to a property of the first changes no other object, and the
  state object, which the module never hands out, is out of its reach. With a non-empty
  key of the state's own, \<^verbatim>\<open>getState\<close> returns a new object with the elements or
  properties of the array or object stored under the key (the same values, one level)
  when that one has the standard prototype chain, and the stored value itself when that
  is no reference.
\<close>

lemma getState_copies:
  assumes "storeReady s"
  shows "state (snd (getState sel s)) = state s \<and>
         take (length (heap s)) (heap (snd (getState sel s))) = heap s \<and>
         getState (Sel Undefined) s
           = (Inr (Ref (length (heap s))), s\<lparr>heap := heap s @ [Obj Standard (state s)]\<rparr>) \<and>
         getState (Sel Undefined) (snd (getState (Sel Undefined) s))
           = (Inr (Ref (Suc (length (heap s)))),
              s\<lparr>heap := heap s @ [Obj Standard (state s), Obj Standard (state s)]\<rparr>) \<and>
         (\<forall>k v. state (assignProp (length (heap s)) k v
                    (s\<lparr>heap := heap s @ [Obj Standard (state s), Obj Standard (state s)]\<rparr>))
                  = state s \<and>
                heap (assignProp (length (heap s)) k v
                    (s\<lparr>heap := heap s @ [Obj Standard (state s), Obj Standard (state s)]\<rparr>))
                  = heap s @ [Obj Standard ((state s)(k \<mapsto> v)), Obj Standard (state s)]) \<and>
         (\<forall>k a. k \<noteq> [] \<and> state s k = Some (Ref a) \<and> a < length (heap s) \<and>
                chain (heap s ! a) = Standard \<longrightarrow>
                getState (Sel (Str k)) s
                  = (Inr (Ref (length (heap s))), s\<lparr>heap := heap s @ [heap s ! a]\<rparr>)) \<and>
         (\<forall>k v. k \<noteq> [] \<and> state s k = Some v \<and> (\<forall>a. v \<noteq> Ref a) \<longrightarrow>
                getState (Sel (Str k)) s = (Inr v, s))"
proof -
  have 1: "state (snd (getState sel s)) = state s"
    and 2: "take (length (heap s)) (heap (snd (getState sel s))) = heap s"
    by (simp_all add: getState_fields)
  have 3: "getState (Sel Undefined) s
           = (Inr (Ref (length (heap s))), s\<lparr>heap := heap s @ [Obj Standard (state s)]\<rparr>)"
    using assms by (simp add: getState_def alloc_def)
  have 4: "getState (Sel Undefined) (snd (getState (Sel Undefined) s))
           = (Inr (Ref (Suc (length (heap s)))),
              s\<lparr>heap := heap s @ [Obj Standard (state s), Obj Standard (state s)]\<rparr>)"
    using assms by (simp add: getState_def alloc_def)
  have 5: "state (assignProp (length (heap s)) k v
                    (s\<lparr>heap := heap s @ [Obj Standard (state s), Obj Standard (state s)]\<rparr>))
                  = state s \<and>
                heap (assignProp (length (heap s)) k v
                    (s\<lparr>heap := heap s @ [Obj Standard (state s), Obj Standard (state s)]\<rparr>))
                  = heap s @ [Obj Standard ((state s)(k \<mapsto> v)), Obj Standard (state s)]"
    for k v
    by (simp add: assignProp_def nth_append list_update_append)
  have 6: "getState (Sel (Str k)) s
                  = (Inr (Ref (length (heap s))), s\<lparr>heap := heap s @ [heap s ! a]\<rparr>)"
    if "k \<noteq> []" "state s k = Some (Ref a)" "a < length (heap s)"
      "chain (heap s ! a) = Standard" for k a
    using assms that by (cases "heap s ! a") (simp_all add: getState_def alloc_def)
  have 7: "getState (Sel (Str k)) s = (Inr v, s)"
    if "k \<noteq> []" "state s k = Some v" "\<forall>a. v \<noteq> Ref a" for k v
    using assms that by (cases v) (simp_all add: getState_def)
  from 1 2 3 4 5 6 7 show ?thesis by blast
qed

lemma getState_copies_example:
  "storeReady basket \<and>
   state basket ''list'' = Some (Ref 0) \<and> heap basket ! 0 = Arr Standard [Num 1, Str ''a''] \<and>
   getState (Sel (Str ''list'')) basket
     = (Inr (Ref 1),
        basket\<lparr>heap := [Arr Standard [Num 1, Str ''a''], Arr Standard [Num 1, Str ''a'']]\<rparr>) \<and>
   state basket ''apples'' = Some (Num 2) \<and>
   getState (Sel (Str ''apples'')) basket = (Inr (Num 2), basket) \<and>
   fst (getState (Sel Undefined) basket) = Inr (Ref 1) \<and>
   fst (getState (Sel Undefined) (snd (getState (Sel Undefined) basket))) = Inr (Ref 2)"
proof -
  have r: "storeReady basket"
    by (simp add: basket_eq initial_def)
  have l: "''list'' \<noteq> [] \<and> state basket ''list'' = Some (Ref 0) \<and> 0 < length (heap basket) \<and>
      chain (heap basket ! 0) = Standard"
    by (simp add: basket_eq initial_def)
  have a: "''apples'' \<noteq> [] \<and> state basket ''apples'' = Some (Num 2) \<and> (\<forall>a. Num 2 \<noteq> Ref a)"
    by (simp add: basket_eq initial_def)
  have h: "heap basket = [Arr Standard [Num 1, Str ''a'']]"
    by (simp add: basket_eq initial_def)
  note t = getState_copies [OF r, of "Sel Undefined"]
  from t l have "getState (Sel (Str ''list'')) basket
      = (Inr (Ref (length (heap basket))), basket\<lparr>heap := heap basket @ [heap basket ! 0]\<rparr>)"
    by blast
  moreover from t a have "getState (Sel (Str ''apples'')) basket = (Inr (Num 2), basket)"
    by blast
  moreover from t have "getState (Sel Undefined) basket
      = (Inr (Ref (length (heap basket))),
         basket\<lparr>heap := heap basket @ [Obj Standard (state basket)]\<rparr>)"
    by blast
  then have "fst (getState (Sel Undefined) basket) = Inr (Ref (length (heap basket)))"
    by (simp only: fst_conv)
  moreover from t have "getState (Sel Undefined) (snd (getState (Sel Undefined) basket))
      = (Inr (Ref (Suc (length (heap basket)))),
         basket\<lparr>heap := heap basket @ [Obj Standard (state basket), Obj Standard (state basket)]\<rparr>)"
    by blast
  then have "fst (getState (Sel Undefined) (snd (getState (Sel Undefined) basket)))
          = Inr (Ref (Suc (length (heap basket))))"
    by (simp only: fst_conv)
  ultimately show ?thesis
    using r l a h by simp
qed

text \<open>A key the state does not have of its own is read from \<^verbatim>\<open>Object.prototype\<close>:
  \<^verbatim>\<open>getState('toString')\<close> on the store initialised with \<^verbatim>\<open>{apples: 2}\<close> returns a new
  object without properties, \<^verbatim>\<open>getState('pears')\<close> returns \<^verbatim>\<open>undefined\<close>.\<close>

lemma getState_inherited_key:
  "getState (Sel (Str ''toString'')) apples
     = (Inr (Ref 0), apples\<lparr>heap := [Obj Standard Map.empty]\<rparr>) \<and>
   getState (Sel (Str ''__proto__'')) apples = (Inr ObjectPrototype, apples) \<and>
   getState (Sel (Str ''pears'')) apples = (Inr Undefined, apples)"
  by (simp add: getState_def alloc_def apples_eq initial_def objectPrototypeFunctions_def)

text \<open>
  Claim C8. With a key, \<^verbatim>\<open>getState\<close> is to return a copy when the value stored under
  the key is an array or an object. It tests the value with \<^verbatim>\<open>instanceof Array\<close> and
  \<^verbatim>\<open>instanceof Object\<close> and takes what fails both for a primitive. The object made by
  \<^verbatim>\<open>Object.create(null)\<close> fails both (as does every object made in another window):
  with that object stored under \<^verbatim>\<open>o\<close>, \<^verbatim>\<open>getState('o')\<close> adds nothing to the heap and
  returns the stored object itself, and an assignment to the property \<^verbatim>\<open>x\<close> of the
  result changes the object the state holds.
\<close>

theorem getState_returns_foreign_object_itself:
  "storeReady crate \<and> state crate ''o'' = Some (Ref 0) \<and>
   heap crate = [Obj Foreign [''x'' \<mapsto> Num 1]] \<and>
   getState (Sel (Str ''o'')) crate = (Inr (Ref 0), crate) \<and>
   state (assignProp 0 ''x'' (Num 2) crate) ''o'' = Some (Ref 0) \<and>
   heap (assignProp 0 ''x'' (Num 2) crate) = [Obj Foreign [''x'' \<mapsto> Num 2]]"
  by (simp add: crate_def initStore_def initial_def isBackgroundPage_def owner_env_def
      getState_def assignProp_def)

section \<open>Properties of the listener registry\<close>

lemma applyOp_ready: "storeReady s \<Longrightarrow> storeReady (applyOp x s)"
  by (cases x) (simp_all add: addListener_def removeListener_def)

lemma applyOps_distinct:
  "storeReady s \<Longrightarrow> distinct (listeners s) \<Longrightarrow> addsFresh xs s \<Longrightarrow>
   distinct (listeners (applyOps xs s))"
proof (induction xs arbitrary: s)
  case Nil
  then show ?case by simp
next
  case (Cons x xs)
  show ?case
  proof (cases x)
    case (Add f)
    with Cons.prems have "distinct (listeners (applyOp x s))" "addsFresh xs (applyOp x s)"
      by (simp_all add: addListener_def)
    with Cons.IH [of "applyOp x s"] Cons.prems(1) show ?thesis
      by (simp add: applyOp_ready)
  next
    case (Remove f)
    with Cons.prems have "distinct (listeners (applyOp x s))" "addsFresh xs (applyOp x s)"
      by (simp_all add: removeListener_def)
    with Cons.IH [of "applyOp x s"] Cons.prems(1) show ?thesis
      by (simp add: applyOp_ready)
  qed
qed

text \<open>
  Claim C4, as stated: the registry never holds a listener more than once. On the store
  initialised with \<^verbatim>\<open>{apples: 2}\<close>, two calls \<^verbatim>\<open>addListener(f)\<close> leave \<open>f\<close> in the
  registry twice.
\<close>

theorem addListener_twice_keeps_both:
  "listeners (applyOps [Add 7, Add 7] apples) = [7, 7] \<and>
   count_list (listeners (applyOps [Add 7, Add 7] apples)) 7 = 2"
  by (simp add: addListener_def apples_eq initial_def)

text \<open>
  Claim C4, amended. On a ready store \<^verbatim>\<open>addListener(f)\<close> adds one occurrence of \<open>f\<close>,
  whether or not \<open>f\<close> is registered, and \<^verbatim>\<open>removeListener(f)\<close> removes every occurrence
  of \<open>f\<close>; neither changes how often another listener occurs. So a registry without
  duplicates stays without duplicates through every sequence of the two operations in
  which no \<^verbatim>\<open>addListener\<close> is given a listener that is registered at that time.
\<close>

theorem registry_append_and_remove_all:
  assumes "storeReady s"
  shows "count_list (listeners (snd (addListener f s))) g
           = count_list (listeners s) g + (if g = f then 1 else 0) \<and>
         count_list (listeners (snd (removeListener f s))) g
           = (if g = f then 0 else count_list (listeners s) g) \<and>
         (distinct (listeners s) \<and> addsFresh xs s \<longrightarrow>
            distinct (listeners (applyOps xs s)) \<and>
            count_list (listeners (applyOps xs s)) g \<le> 1)"
proof -
  have rm: "count_list (filter (\<lambda>l. l \<noteq> f) ls) g = (if g = f then 0 else count_list ls g)"
    for ls
    by (induction ls) auto
  have d: "distinct ls \<Longrightarrow> count_list ls g \<le> 1" for ls :: "lid list"
    by (induction ls) auto
  from assms rm d applyOps_distinct [of s xs] show ?thesis
    by (auto simp: addListener_def removeListener_def)
qed

theorem registry_append_and_remove_all_witness:
  "storeReady apples \<and> distinct (listeners apples) \<and>
   addsFresh [Add 1, Add 2, Remove 1, Add 1] apples \<and>
   distinct (listeners (applyOps [Add 1, Add 2, Remove 1, Add 1] apples)) \<and>
   listeners (applyOps [Add 1, Add 2, Remove 1, Add 1] apples) = [2, 1]"
  using registry_append_and_remove_all
          [where s = apples and xs = "[Add 1, Add 2, Remove 1, Add 1]" and f = 1 and g = 1]
  by (simp add: apples_eq initial_def addListener_def removeListener_def)

text \<open>
  Claim C5. \<^verbatim>\<open>hasListener(f)\<close> is to return whether \<open>f\<close> is registered. Its body
  evaluates \<^verbatim>\<open>listeners.some(...)\<close> without returning it: on a ready store with two
  listeners, asked for the first of them, the call returns \<^verbatim>\<open>undefined\<close>.
  \<^verbatim>\<open>hasListeners()\<close> there returns \<^verbatim>\<open>true\<close>.
\<close>

theorem hasListener_returns_undefined:
  "listeners watched = [5, 8] \<and>
   hasListener 5 watched = (Inr Undefined, watched) \<and>
   hasListeners watched = (Inr (Bool True), watched)"
  by (simp add: hasListener_def hasListeners_def watched_def addListener_def apples_eq
      initial_def)

section \<open>The event loop, turn by turn\<close>

lemma run_job: "jobs s = j # js \<Longrightarrow> run s = run (runJob j (s\<lparr>jobs := js\<rparr>))"
  by (subst run.simps) simp

lemma run_timer:
  "jobs s = [] \<Longrightarrow> timers s = t # ts \<Longrightarrow> run s = run (fire t (s\<lparr>timers := ts\<rparr>))"
  by (subst run.simps) simp

lemma run_idle: "jobs s = [] \<Longrightarrow> timers s = [] \<Longrightarrow> run s = s"
  by (subst run.simps) simp

lemma getState_none:
  "storeReady s \<Longrightarrow>
   getState (Sel Undefined) s = (Inr (Ref (length (heap s))), s\<lparr>heap := heap s @ [Obj Standard (state s)]\<rparr>)"
  by (simp add: getState_def alloc_def)

lemma forEachListener_ready:
  "storeReady s \<Longrightarrow>
   forEachListener ls s
     = (Inr Undefined,
        s\<lparr>heap := heap s @ replicate (length ls) (Obj Standard (state s)),
          trace := trace s @ callsFrom (length (heap s)) ls\<rparr>)"
proof (induction ls arbitrary: s)
  case Nil
  then show ?case by simp
next
  case (Cons l ls)
  let ?s' = "s\<lparr>heap := heap s @ [Obj Standard (state s)],
               trace := trace s @ [Call l (Ref (length (heap s)))]\<rparr>"
  have "storeReady ?s'" using Cons.prems by simp
  from Cons.IH [OF this] Cons.prems show ?case
    by (simp add: getState_none replicate_app_Cons_same)
qed

lemma commit_ready:
  "storeReady s \<Longrightarrow>
   commit s
     = (Inr Undefined,
        s\<lparr>state := state s ++ composeNextState s (state s),
          shouldUpdateState := True, composeNextState := (\<lambda>s. s),
          heap := heap s @ Obj Standard (state s)
                  # replicate (length (listeners s))
                      (Obj Standard (state s ++ composeNextState s (state s))),
          trace := trace s @ Commit # callsFrom (Suc (length (heap s))) (listeners s)\<rparr>)"
  by (simp add: commit_def getState_none forEachListener_ready props_def Let_def)

lemma turn_resolve_pending:
  assumes "storeReady s" "jobs s = []" "timers s = TResolve c # ts"
    and "c < length (promises s)" "promises s ! c = Pending"
  shows "run s = run (s\<lparr>timers := ts, jobs := [], heap := heap s @ [Obj Standard (state s)],
            promises := (promises s)[c := Done (Fulfilled (Ref (length (heap s))))],
            trace := trace s @ [Settle c (Fulfilled (Ref (length (heap s))))]\<rparr>)"
proof -
  let ?s1 = "s\<lparr>timers := ts, jobs := [JResolve c]\<rparr>"
  let ?s2 = "s\<lparr>timers := ts, promises := (promises s)[c := Resolved],
               jobs := [JGetState c]\<rparr>"
  have "run s = run ?s1"
    using assms by (simp add: run_timer [of s "TResolve c" ts])
  also have "\<dots> = run ?s2"
    using assms by (simp add: run_job [of ?s1 "JResolve c" "[]"])
  also have "\<dots> = run (runJob (JGetState c) (?s2\<lparr>jobs := []\<rparr>))"
    by (rule run_job) simp
  finally show ?thesis
    using assms by (simp add: getState_none)
qed

lemma turn_resolve_done:
  assumes "jobs s = []" "timers s = TResolve c # ts"
    and "\<not> (c < length (promises s) \<and> promises s ! c = Pending)"
  shows "run s = run (s\<lparr>timers := ts, jobs := []\<rparr>)"
proof -
  let ?s1 = "s\<lparr>timers := ts, jobs := [JResolve c]\<rparr>"
  have "run s = run ?s1"
    using assms by (simp add: run_timer [of s "TResolve c" ts])
  also have "\<dots> = run (runJob (JResolve c) (?s1\<lparr>jobs := []\<rparr>))"
    by (rule run_job) simp
  finally show ?thesis
    using assms(3) by auto
qed

lemma turn_commit:
  assumes "storeReady s" "jobs s = []" "timers s = TCommit c # ts"
    and "c < length (promises s)" "promises s ! c = Pending"
  shows "run s = run (s\<lparr>timers := ts, jobs := [],
            state := state s ++ composeNextState s (state s),
            shouldUpdateState := True, composeNextState := (\<lambda>s. s),
            heap := heap s @ Obj Standard (state s)
                    # replicate (Suc (length (listeners s)))
                        (Obj Standard (state s ++ composeNextState s (state s))),
            promises := (promises s)
                          [c := Done (Fulfilled (Ref (Suc (length (heap s) + length (listeners s)))))],
            trace := trace s @ Commit # callsFrom (Suc (length (heap s))) (listeners s)
                     @ [Settle c (Fulfilled (Ref (Suc (length (heap s) + length (listeners s)))))]\<rparr>)"
proof -
  let ?s1 = "s\<lparr>timers := ts, jobs := [JCommit c]\<rparr>"
  let ?s2 = "runJob (JCommit c) (?s1\<lparr>jobs := []\<rparr>)"
  let ?s3 = "runJob (JResolve c) (?s2\<lparr>jobs := []\<rparr>)"
  have "run s = run ?s1"
    using assms by (simp add: run_timer [of s "TCommit c" ts])
  also have "\<dots> = run ?s2"
    by (rule run_job) simp
  also have "\<dots> = run ?s3"
    by (rule run_job) (use assms in \<open>simp add: commit_ready\<close>)
  also have "\<dots> = run (runJob (JGetState c) (?s3\<lparr>jobs := []\<rparr>))"
    by (rule run_job) (use assms in \<open>simp add: commit_ready\<close>)
  finally show ?thesis
    using assms by (cases s) (simp add: commit_ready getState_none replicate_append_same)
qed

lemma run_resolve_timers:
  assumes "storeReady s" "jobs s = []" "timers s = map TResolve [c..<c + k]"
    and "c + k \<le> length (promises s)" "\<forall>i<k. promises s ! (c + i) = Pending"
  shows "run s = s\<lparr>timers := [], jobs := [],
            heap := heap s @ replicate k (Obj Standard (state s)),
            promises := settleAll c (length (heap s)) k (promises s),
            trace := trace s @ settlesFrom c (length (heap s)) k\<rparr>"
  using assms
proof (induction k arbitrary: s c)
  case 0
  then have "run s = s" by (simp add: run_idle)
  with 0 show ?case by (cases s) simp
next
  case (Suc k)
  let ?s' = "s\<lparr>timers := map TResolve [Suc c..<Suc c + k], jobs := [], heap := heap s @ [Obj Standard (state s)],
            promises := (promises s)[c := Done (Fulfilled (Ref (length (heap s))))],
            trace := trace s @ [Settle c (Fulfilled (Ref (length (heap s))))]\<rparr>"
  have t: "timers s = TResolve c # map TResolve [Suc c..<Suc c + k]"
    using Suc.prems(3) by (simp add: upt_conv_Cons)
  have p: "c < length (promises s)" "promises s ! c = Pending"
    using Suc.prems(4) Suc.prems(5) [rule_format, of 0] by simp_all
  have "run s = run ?s'"
    using turn_resolve_pending [OF Suc.prems(1,2) t p] .
  also have "\<dots> = ?s'\<lparr>timers := [], jobs := [],
            heap := heap ?s' @ replicate k (Obj Standard (state ?s')),
            promises := settleAll (Suc c) (length (heap ?s')) k (promises ?s'),
            trace := trace ?s' @ settlesFrom (Suc c) (length (heap ?s')) k\<rparr>"
  proof (rule Suc.IH)
    show "\<forall>i<k. promises ?s' ! (Suc c + i) = Pending"
      using Suc.prems(5) by (auto simp: nth_list_update)
  qed (use Suc.prems in simp_all)
  finally show ?case
    by (simp add: replicate_app_Cons_same)
qed

lemma run_window:
  assumes "storeReady s" "jobs s = []"
    and "timers s = TCommit c # map TResolve [c..<c + Suc k]"
    and "c + Suc k \<le> length (promises s)" "\<forall>i<Suc k. promises s ! (c + i) = Pending"
  shows "run s = s\<lparr>timers := [], jobs := [],
            state := state s ++ composeNextState s (state s),
            shouldUpdateState := True, composeNextState := (\<lambda>s. s),
            heap := heap s @ Obj Standard (state s)
                    # replicate (length (listeners s) + Suc k)
                        (Obj Standard (state s ++ composeNextState s (state s))),
            promises := settleAll c (Suc (length (heap s) + length (listeners s))) (Suc k)
                          (promises s),
            trace := trace s @ Commit # callsFrom (Suc (length (heap s))) (listeners s)
                     @ settlesFrom c (Suc (length (heap s) + length (listeners s))) (Suc k)\<rparr>"
proof -
  let ?st = "state s ++ composeNextState s (state s)"
  let ?a = "Suc (length (heap s) + length (listeners s))"
  let ?s1 = "s\<lparr>timers := map TResolve [c..<c + Suc k], jobs := [],
            state := ?st, shouldUpdateState := True, composeNextState := (\<lambda>s. s),
            heap := heap s @ Obj Standard (state s) # replicate (Suc (length (listeners s))) (Obj Standard ?st),
            promises := (promises s)[c := Done (Fulfilled (Ref ?a))],
            trace := trace s @ Commit # callsFrom (Suc (length (heap s))) (listeners s)
                     @ [Settle c (Fulfilled (Ref ?a))]\<rparr>"
  let ?s2 = "?s1\<lparr>timers := map TResolve [Suc c..<Suc c + k], jobs := []\<rparr>"
  have p: "c < length (promises s)" "promises s ! c = Pending"
    using assms(4) assms(5) [rule_format, of 0] by simp_all
  have "run s = run ?s1"
    using turn_commit [OF assms(1,2,3) p] .
  also have "\<dots> = run ?s2"
  proof (rule turn_resolve_done)
    show "timers ?s1 = TResolve c # map TResolve [Suc c..<Suc c + k]"
      by (simp add: upt_conv_Cons)
    show "\<not> (c < length (promises ?s1) \<and> promises ?s1 ! c = Pending)"
      using p by simp
  qed simp
  also have "\<dots> = ?s2\<lparr>timers := [], jobs := [],
            heap := heap ?s2 @ replicate k (Obj Standard (state ?s2)),
            promises := settleAll (Suc c) (length (heap ?s2)) k (promises ?s2),
            trace := trace ?s2 @ settlesFrom (Suc c) (length (heap ?s2)) k\<rparr>"
  proof (rule run_resolve_timers)
    show "\<forall>i<k. promises ?s2 ! (Suc c + i) = Pending"
      using assms(5) by (auto simp: nth_list_update)
  qed (use assms in simp_all)
  finally show ?thesis
    by (cases s) (simp add: replicate_add replicate_append_same)
qed

lemma follows_refl: "follows n s s"
  by (simp add: follows_def)

lemma follows_trans:
  assumes "follows n s s'" "follows n s' s''"
  shows "follows n s s''"
proof -
  from assms(1) obtain ext pre where 1: "heap s' = heap s @ ext" "trace s' = trace s @ pre"
    "\<forall>e\<in>set pre. \<exists>c r. e = Settle c r \<and> c < n"
    by (auto simp: follows_def)
  from assms(2) obtain ext' pre' where 2: "heap s'' = heap s' @ ext'"
    "trace s'' = trace s' @ pre'" "\<forall>e\<in>set pre'. \<exists>c r. e = Settle c r \<and> c < n"
    by (auto simp: follows_def)
  have h: "\<exists>x. heap s'' = heap s @ x"
    using 1(1) 2(1) by simp
  have "trace s'' = trace s @ (pre @ pre') \<and>
        (\<forall>e\<in>set (pre @ pre'). \<exists>c r. e = Settle c r \<and> c < n)"
    using 1(2,3) 2(2,3) by auto
  then have t: "\<exists>p. trace s'' = trace s @ p \<and> (\<forall>e\<in>set p. \<exists>c r. e = Settle c r \<and> c < n)"
    by blast
  from assms h t show ?thesis
    by (simp add: follows_def)
qed

lemma follows_settle:
  assumes "c < n"
  shows "follows n s (s\<lparr>timers := ts, jobs := js, heap := heap s @ [x],
            promises := (promises s)[c := p],
            trace := trace s @ [Settle c r]\<rparr>)"
proof -
  have "\<exists>pre. trace s @ [Settle c r] = trace s @ pre \<and>
          (\<forall>e\<in>set pre. \<exists>c r. e = Settle c r \<and> c < n)"
    using assms by (intro exI [of _ "[Settle c r]"]) simp
  with assms show ?thesis
    by (simp add: follows_def)
qed

lemma follows_queues: "follows n s (s\<lparr>timers := ts, jobs := js\<rparr>)"
  by (simp add: follows_def)

lemma follows_resolved:
  assumes "c < n"
  shows "follows n s (s\<lparr>promises := (promises s)[c := p], jobs := js\<rparr>)"
  using assms by (simp add: follows_def)

lemma run_late_jobs:
  assumes "storeReady s" "list_all (lateJob n) (jobs s)"
  shows "\<exists>s'. run s = run s' \<and> jobs s' = [] \<and> timers s' = timers s \<and> follows n s s'"
  using assms
proof (induction "sum_list (map jobWeight (jobs s))" arbitrary: s rule: less_induct)
  case less
  show ?case
  proof (cases "jobs s")
    case Nil
    then show ?thesis
      by (intro exI [of _ s]) (simp add: follows_refl)
  next
    case (Cons j js)
    let ?s0 = "s\<lparr>jobs := js\<rparr>"
    have r: "run s = run (runJob j ?s0)"
      using Cons by (rule run_job)
    have js: "list_all (lateJob n) js" and j: "lateJob n j"
      using less.prems(2) Cons by simp_all
    have step: "storeReady (runJob j ?s0) \<and> list_all (lateJob n) (jobs (runJob j ?s0)) \<and>
        sum_list (map jobWeight (jobs (runJob j ?s0))) < sum_list (map jobWeight (jobs s)) \<and>
        timers (runJob j ?s0) = timers s \<and> follows n s (runJob j ?s0)"
    proof (cases j)
      case (JCommit c)
      with j show ?thesis by simp
    next
      case (JResolve c)
      with j have c: "c < n" by simp
      show ?thesis
      proof (cases "c < length (promises s) \<and> promises s ! c = Pending")
        case True
        have "follows n s (s\<lparr>promises := (promises s)[c := Resolved],
                             jobs := js @ [JGetState c]\<rparr>)"
          using c by (rule follows_resolved)
        with True JResolve less.prems(1) js c Cons show ?thesis
          by simp
      next
        case False
        have "follows n s (s\<lparr>jobs := js\<rparr>)"
          by (simp add: follows_def)
        with False JResolve less.prems(1) js Cons show ?thesis
          by auto
      qed
    next
      case (JGetState c)
      with j have c: "c < n" by simp
      have "follows n s (s\<lparr>timers := timers s, jobs := js, heap := heap s @ [Obj Standard (state s)],
            promises := (promises s)[c := Done (Fulfilled (Ref (length (heap s))))],
            trace := trace s @ [Settle c (Fulfilled (Ref (length (heap s))))]\<rparr>)"
        using c by (rule follows_settle)
      with JGetState less.prems(1) js Cons show ?thesis
        by (simp add: getState_none)
    qed
    from less.hyps [of "runJob j ?s0"] step
    obtain s' where "run (runJob j ?s0) = run s'" "jobs s' = []"
      "timers s' = timers (runJob j ?s0)" "follows n (runJob j ?s0) s'"
      by blast
    with r step show ?thesis
      by (intro exI [of _ s']) (auto intro: follows_trans)
  qed
qed

lemma run_late_timers:
  assumes "storeReady s" "jobs s = []" "timers s = olds @ rest" "list_all (lateTimer n) olds"
  shows "\<exists>s'. run s = run s' \<and> jobs s' = [] \<and> timers s' = rest \<and> follows n s s'"
  using assms
proof (induction olds arbitrary: s)
  case Nil
  then show ?case
    by (intro exI [of _ s]) (simp add: follows_refl)
next
  case (Cons t olds)
  from Cons.prems(4) obtain c where t: "t = TResolve c" and c: "c < n"
    and olds: "list_all (lateTimer n) olds"
    by (cases t) simp_all
  have ts: "timers s = TResolve c # (olds @ rest)"
    using Cons.prems(3) t by simp
  show ?case
  proof (cases "c < length (promises s) \<and> promises s ! c = Pending")
    case True
    let ?s1 = "s\<lparr>timers := olds @ rest, jobs := [], heap := heap s @ [Obj Standard (state s)],
            promises := (promises s)[c := Done (Fulfilled (Ref (length (heap s))))],
            trace := trace s @ [Settle c (Fulfilled (Ref (length (heap s))))]\<rparr>"
    have r: "run s = run ?s1"
      using turn_resolve_pending [OF Cons.prems(1,2) ts] True by simp
    have f: "follows n s ?s1"
      using c by (rule follows_settle)
    have "\<exists>s'. run ?s1 = run s' \<and> jobs s' = [] \<and> timers s' = rest \<and> follows n ?s1 s'"
      by (rule Cons.IH) (use Cons.prems olds in simp_all)
    then obtain s' where "run ?s1 = run s'" "jobs s' = []" "timers s' = rest"
      "follows n ?s1 s'"
      by blast
    with r f show ?thesis
      by (intro exI [of _ s']) (auto intro: follows_trans)
  next
    case False
    let ?s1 = "s\<lparr>timers := olds @ rest, jobs := []\<rparr>"
    have r: "run s = run ?s1"
      using turn_resolve_done [OF Cons.prems(2) ts False] .
    have f: "follows n s ?s1"
      by (rule follows_queues)
    have "\<exists>s'. run ?s1 = run s' \<and> jobs s' = [] \<and> timers s' = rest \<and> follows n ?s1 s'"
      by (rule Cons.IH) (use Cons.prems olds in simp_all)
    then obtain s' where "run ?s1 = run s'" "jobs s' = []" "timers s' = rest"
      "follows n ?s1 s'"
      by blast
    with r f show ?thesis
      by (intro exI [of _ s']) (auto intro: follows_trans)
  qed
qed

section \<open>A batch of setState calls\<close>

lemma setState_ready:
  "storeReady s \<Longrightarrow>
   setState u s
     = (Inr (length (promises s)),
        s\<lparr>promises := promises s @ [Pending],
          composeNextState := (\<lambda>x. mergeUpdate (composeNextState s x) u),
          timers := timers s @ (if shouldUpdateState s then [TCommit (length (promises s))] else [])
                    @ [TResolve (length (promises s))],
          shouldUpdateState := False\<rparr>)"
  by (cases u; cases s) (simp_all add: setState_def mergeUpdate_def Let_def)

lemma setStates_ready:
  "storeReady s \<Longrightarrow>
   setStates us s
     = s\<lparr>promises := promises s @ replicate (length us) Pending,
         composeNextState := (\<lambda>x. foldl mergeUpdate (composeNextState s x) us),
         timers := timers s
                   @ (if shouldUpdateState s \<and> us \<noteq> [] then [TCommit (length (promises s))] else [])
                   @ map TResolve [length (promises s)..<length (promises s) + length us],
         shouldUpdateState := (shouldUpdateState s \<and> us = [])\<rparr>"
proof (induction us arbitrary: s)
  case Nil
  then show ?case by (cases s) simp
next
  case (Cons u us)
  let ?s1 = "snd (setState u s)"
  have r: "storeReady ?s1"
    using Cons.prems by (simp add: setState_ready)
  show ?case
    using Cons.IH [OF r] Cons.prems
    by (cases s) (simp add: setState_ready upt_conv_Cons replicate_app_Cons_same del: upt_Suc)
qed

lemma setStates_returns:
  "storeReady s \<Longrightarrow> i < length us \<Longrightarrow>
   fst (setState (us ! i) (setStates (take i us) s)) = Inr (length (promises s) + i)"
  by (simp add: setStates_ready setState_ready)

lemma merge_covers: "dom m \<subseteq> dom (foldl mergeUpdate m' us)" if "dom m \<subseteq> dom m'"
  using that
proof (induction us arbitrary: m')
  case Nil
  then show ?case by simp
next
  case (Cons u us)
  have "dom m \<subseteq> dom (mergeUpdate m' u)"
    using Cons.prems by (cases u) (auto simp: mergeUpdate_def)
  from Cons.IH [OF this] show ?case by simp
qed

lemma assign_merged: "m ++ foldl mergeUpdate m us = foldl mergeUpdate m us"
proof (rule ext)
  fix k
  have "dom m \<subseteq> dom (foldl mergeUpdate m us)"
    by (rule merge_covers) simp
  then show "(m ++ foldl mergeUpdate m us) k = foldl mergeUpdate m us k"
    by (cases "foldl mergeUpdate m us k") (auto simp: map_add_def dom_def)
qed

lemma settleAll_length: "length (settleAll c a k ps) = length ps"
  by (induction k arbitrary: c a ps) simp_all

lemma settleAll_before: "j < c \<Longrightarrow> settleAll c a k ps ! j = ps ! j"
  by (induction k arbitrary: c a ps) simp_all

lemma settleAll_nth:
  "i < k \<Longrightarrow> c + k \<le> length ps \<Longrightarrow> settleAll c a k ps ! (c + i) = Done (Fulfilled (Ref (a + i)))"
proof (induction k arbitrary: c a ps i)
  case 0
  then show ?case by simp
next
  case (Suc k)
  show ?case
  proof (cases i)
    case 0
    with Suc.prems show ?thesis
      by (simp add: settleAll_before)
  next
    case (Suc i')
    with Suc.prems Suc.IH [of i' "Suc c" "ps[c := Done (Fulfilled (Ref a))]" "Suc a"]
    show ?thesis by simp
  qed
qed

lemma run_batch:
  assumes "batchStart s" "composeNextState s = (\<lambda>x. x)" "us \<noteq> []"
  shows "\<exists>pre ext.
     (\<forall>e\<in>set pre. \<exists>c r. e = Settle c r \<and> c < length (promises s)) \<and>
     state (run (setStates us s)) = foldl mergeUpdate (state s) us \<and>
     listeners (run (setStates us s)) = listeners s \<and>
     storeReady (run (setStates us s)) \<and>
     shouldUpdateState (run (setStates us s)) \<and>
     composeNextState (run (setStates us s)) = (\<lambda>x. x) \<and>
     timers (run (setStates us s)) = [] \<and> jobs (run (setStates us s)) = [] \<and>
     heap (run (setStates us s))
       = heap s @ ext @ Obj Standard (state s)
         # replicate (length (listeners s) + length us) (Obj Standard (foldl mergeUpdate (state s) us)) \<and>
     trace (run (setStates us s))
       = trace s @ pre @ Commit
         # callsFrom (Suc (length (heap s) + length ext)) (listeners s)
         @ settlesFrom (length (promises s))
             (Suc (length (heap s) + length ext + length (listeners s))) (length us) \<and>
     length (promises (run (setStates us s))) = length (promises s) + length us \<and>
     (\<forall>i<length us. promises (run (setStates us s)) ! (length (promises s) + i)
        = Done (Fulfilled (Ref (Suc (length (heap s) + length ext + length (listeners s)) + i))))"
proof -
  let ?n = "length (promises s)"
  let ?s0 = "setStates us s"
  let ?M = "foldl mergeUpdate (state s) us"
  obtain k where k: "length us = Suc k"
    using assms(3) by (cases us) simp_all
  have b: "storeReady s" "shouldUpdateState s" "list_all (lateJob ?n) (jobs s)"
    "list_all (lateTimer ?n) (timers s)"
    using assms(1) by (simp_all add: batchStart_def)
  let ?rest = "TCommit ?n # map TResolve [?n..<?n + Suc k]"
  have s0: "storeReady ?s0" "jobs ?s0 = jobs s" "timers ?s0 = timers s @ ?rest"
    "state ?s0 = state s" "listeners ?s0 = listeners s" "heap ?s0 = heap s"
    "trace ?s0 = trace s" "promises ?s0 = promises s @ replicate (Suc k) Pending"
    "composeNextState ?s0 = (\<lambda>x. foldl mergeUpdate x us)"
    using b assms(2,3) k by (simp_all add: setStates_ready)
  from run_late_jobs [of ?s0 ?n] s0(1,2) b(3)
  obtain s1 where s1: "run ?s0 = run s1" "jobs s1 = []" "timers s1 = timers ?s0"
    "follows ?n ?s0 s1"
    by auto
  have "storeReady s1"
    using s1(4) s0(1) by (simp add: follows_def)
  from run_late_timers [OF this s1(2) _ b(4), of ?rest] s1(3) s0(3)
  obtain s' where s2: "run s1 = run s'" "jobs s' = []" "timers s' = ?rest"
    "follows ?n s1 s'"
    by auto
  have f: "follows ?n ?s0 s'"
    using s1(4) s2(4) by (rule follows_trans)
  then obtain ext pre where e: "heap s' = heap ?s0 @ ext" "trace s' = trace ?s0 @ pre"
    "\<forall>e\<in>set pre. \<exists>c r. e = Settle c r \<and> c < ?n"
    by (auto simp: follows_def)
  from f have g: "storeReady s' = storeReady ?s0" "state s' = state ?s0"
    "listeners s' = listeners ?s0" "composeNextState s' = composeNextState ?s0"
    "length (promises s') = length (promises ?s0)"
    "\<forall>c\<ge>?n. promises s' ! c = promises ?s0 ! c"
    by (simp_all add: follows_def)
  have s': "run ?s0 = run s'" "jobs s' = []" "timers s' = ?rest"
    "storeReady s'" "state s' = state s" "listeners s' = listeners s"
    "composeNextState s' = (\<lambda>x. foldl mergeUpdate x us)"
    "length (promises s') = ?n + Suc k"
    "\<forall>c\<ge>?n. promises s' ! c = (promises s @ replicate (Suc k) Pending) ! c"
    "heap s' = heap s @ ext"
    "trace s' = trace s @ pre" "\<forall>e\<in>set pre. \<exists>c r. e = Settle c r \<and> c < ?n"
    using s1(1) s2(1,2,3) e g s0(1) unfolding s0(2-) by simp_all
  have pend: "\<forall>i<Suc k. promises s' ! (?n + i) = Pending"
  proof (intro allI impI)
    fix i
    assume i: "i < Suc k"
    from s'(9) have "promises s' ! (?n + i) = (promises s @ replicate (Suc k) Pending) ! (?n + i)"
      by (simp del: replicate_Suc)
    with i show "promises s' ! (?n + i) = Pending"
      by (simp add: nth_append del: replicate_Suc)
  qed
  have len: "?n + Suc k \<le> length (promises s')"
    using s'(8) by simp
  note w = run_window [OF s'(4) s'(2) s'(3) len pend]
  have M: "state s' ++ composeNextState s' (state s') = ?M"
    using s'(5,7) by (simp add: assign_merged)
  let ?F = "run ?s0"
  have F: "?F = s'\<lparr>timers := [], jobs := [], state := ?M,
            shouldUpdateState := True, composeNextState := (\<lambda>s. s),
            heap := heap s' @ Obj Standard (state s')
                    # replicate (length (listeners s') + Suc k) (Obj Standard ?M),
            promises := settleAll ?n (Suc (length (heap s') + length (listeners s'))) (Suc k)
                          (promises s'),
            trace := trace s' @ Commit # callsFrom (Suc (length (heap s'))) (listeners s')
                     @ settlesFrom ?n (Suc (length (heap s') + length (listeners s'))) (Suc k)\<rparr>"
    using w s'(1) M by simp
  show ?thesis
  proof (intro exI [of _ pre] exI [of _ ext] conjI)
    show "\<forall>e\<in>set pre. \<exists>c r. e = Settle c r \<and> c < ?n"
      by (rule s'(12))
    show "\<forall>i<length us. promises ?F ! (?n + i)
        = Done (Fulfilled (Ref (Suc (length (heap s) + length ext + length (listeners s)) + i)))"
      unfolding F using len k s'(6,10) by (simp add: settleAll_nth del: settleAll.simps)
  qed (unfold F, use s' k in \<open>simp_all add: settleAll_length\<close>)
qed

lemma callsFrom_map:
  "callsFrom a ls = map (\<lambda>i. Call (ls ! i) (Ref (a + i))) [0..<length ls]"
proof (induction ls arbitrary: a)
  case Nil
  show ?case by simp
next
  case (Cons l ls)
  show ?case
    by (simp add: Cons.IH map_upt_Suc del: upt_Suc)
qed

lemma settlesFrom_map:
  "settlesFrom c a k = map (\<lambda>i. Settle (c + i) (Fulfilled (Ref (a + i)))) [0..<k]"
proof (induction k arbitrary: c a)
  case 0
  show ?case by simp
next
  case (Suc k)
  show ?case
    by (simp add: Suc.IH map_upt_Suc del: upt_Suc)
qed

lemma run_no_batch:
  assumes "batchStart s"
  shows "state (run s) = state s"
proof -
  let ?n = "length (promises s)"
  have b: "storeReady s" "list_all (lateJob ?n) (jobs s)" "list_all (lateTimer ?n) (timers s)"
    using assms by (simp_all add: batchStart_def)
  from run_late_jobs [OF b(1,2)]
  obtain s1 where s1: "run s = run s1" "jobs s1 = []" "timers s1 = timers s" "follows ?n s s1"
    by auto
  have "storeReady s1"
    using s1(4) b(1) by (simp add: follows_def)
  from run_late_timers [OF this s1(2) _ b(3), of "[]"] s1(3)
  obtain s' where s2: "run s1 = run s'" "jobs s' = []" "timers s' = []" "follows ?n s1 s'"
    by auto
  have "follows ?n s s'"
    using s1(4) s2(4) by (rule follows_trans)
  with s1(1) s2(1,2,3) show ?thesis
    by (simp add: run_idle follows_def)
qed

lemma settlesFrom_only_settles: "\<forall>e\<in>set (settlesFrom c a k). \<exists>c r. e = Settle c r"
  by (induction k arbitrary: c a) simp_all

lemma nth_copies:
  assumes "i < k"
  shows "(xs @ ys @ z # replicate k x) ! (Suc (length xs + length ys) + i) = x"
proof -
  have "(xs @ ys @ z # replicate k x) ! (Suc (length xs + length ys) + i)
          = ((xs @ ys @ [z]) @ replicate k x) ! (length (xs @ ys @ [z]) + i)"
    by simp
  also have "\<dots> = replicate k x ! i"
    by (rule nth_append_length_plus)
  finally show ?thesis
    using assms by simp
qed

lemma callsOf_append: "callsOf l (xs @ ys) = callsOf l xs + callsOf l ys"
  by (induction l xs rule: callsOf.induct) simp_all

lemma callsOf_settles: "\<forall>e\<in>set es. \<exists>c r. e = Settle c r \<Longrightarrow> callsOf l es = 0"
  by (induction es) auto

lemma callsOf_callsFrom: "callsOf l (callsFrom a ls) = count_list ls l"
  by (induction ls arbitrary: a) simp_all

section \<open>Stores the module can reach\<close>

text \<open>The conditions a batch starts from hold on the store as initialised, and hold
  again when the loop has run a batch.\<close>

lemma batchStart_initStore:
  assumes "initStore e i initial = (Inr v, s)"
  shows "batchStart s \<and> composeNextState s = (\<lambda>x. x)"
  using assms
  by (auto simp: initStore_def initial_def batchStart_def split: sum.splits bool.splits)

lemma batchStart_run:
  assumes "batchStart s" "composeNextState s = (\<lambda>x. x)" "us \<noteq> []"
  shows "batchStart (run (setStates us s)) \<and> composeNextState (run (setStates us s)) = (\<lambda>x. x)"
  using run_batch [OF assms] by (auto simp: batchStart_def)

text \<open>The conditions a batch starts from hold whenever the module can be reached with
  \<^verbatim>\<open>shouldUpdateState\<close> true.\<close>

lemma run_step: "run s = run (step s)"
proof (cases "jobs s")
  case Nil
  show ?thesis
  proof (cases "timers s")
    case Nil
    with \<open>jobs s = []\<close> show ?thesis by (simp add: step_def)
  next
    case (Cons t ts)
    with \<open>jobs s = []\<close> show ?thesis by (simp add: step_def run_timer)
  qed
next
  case (Cons j js)
  then show ?thesis by (simp add: step_def run_job)
qed

lemma scheduled_getState:
  assumes "scheduled s"
  shows "scheduled (snd (getState k s))"
proof -
  obtain h where "snd (getState k s) = s\<lparr>heap := h\<rparr>"
    using getState_heap_only by blast
  with assms show ?thesis
    by (simp add: scheduled_def commitsPending_def)
qed

lemma scheduled_setState:
  assumes "scheduled s"
  shows "scheduled (snd (setState u s))"
proof -
  have r: "storeReady s"
    using assms by (simp add: scheduled_def)
  have w: "list_all (\<lambda>t. timerCall t < Suc n) ts" if "list_all (\<lambda>t. timerCall t < n) ts"
    for n ts
    using that by (induction ts) auto
  have v: "list_all (\<lambda>j. jobCall j < Suc n) js" if "list_all (\<lambda>j. jobCall j < n) js"
    for n js
    using that by (induction js) auto
  from assms show ?thesis
    by (auto simp: setState_ready [OF r] scheduled_def commitsPending_def intro: w v)
qed

lemma scheduled_step:
  assumes "scheduled s"
  shows "scheduled (step s)"
proof (cases "jobs s")
  case Nil
  show ?thesis
  proof (cases "timers s")
    case Nil
    with \<open>jobs s = []\<close> assms show ?thesis by (simp add: step_def)
  next
    case (Cons t ts)
    with \<open>jobs s = []\<close> assms show ?thesis
      by (cases t) (auto simp: step_def scheduled_def commitsPending_def)
  qed
next
  case (Cons j js)
  have r: "storeReady (s\<lparr>jobs := js\<rparr>)"
    using assms by (simp add: scheduled_def)
  show ?thesis
  proof (cases j)
    case (JCommit c)
    have "\<not> shouldUpdateState s"
      using assms Cons JCommit by (auto simp: scheduled_def commitsPending_def)
    with assms Cons JCommit show ?thesis
      by (auto simp: step_def scheduled_def commitsPending_def commit_ready [OF r])
  next
    case (JResolve c)
    with assms Cons show ?thesis
      by (auto simp: step_def scheduled_def commitsPending_def)
  next
    case (JGetState c)
    with assms Cons show ?thesis
      by (auto simp: step_def scheduled_def commitsPending_def getState_none [OF r])
  qed
qed

lemma reachable_scheduled: "reachable s \<Longrightarrow> scheduled s"
proof (induction rule: reachable.induct)
  case (init e i h s)
  then show ?case
    by (auto simp: initStore_def initial_def scheduled_def commitsPending_def
        split: sum.splits bool.splits)
next
  case (get s k)
  from get.IH show ?case by (rule scheduled_getState)
next
  case (set s u)
  from set.IH show ?case by (rule scheduled_setState)
next
  case (add s f)
  then show ?case
    by (simp add: scheduled_def commitsPending_def addListener_def)
next
  case (remove s f)
  then show ?case
    by (simp add: scheduled_def commitsPending_def removeListener_def)
next
  case (loop s)
  from loop.IH show ?case by (rule scheduled_step)
qed

lemma scheduled_batchStart:
  assumes "scheduled s" "shouldUpdateState s"
  shows "batchStart s \<and> composeNextState s = (\<lambda>x. x)"
proof -
  have t: "list_all (lateTimer n) ts"
    if "list_all (\<lambda>t. timerCall t < n) ts" "filter commitTimer ts = []" for n ts
    using that
  proof (induction ts)
    case Nil
    show ?case by simp
  next
    case (Cons t ts)
    then show ?case by (cases t) (simp_all split: if_splits)
  qed
  have j: "list_all (lateJob n) js"
    if "list_all (\<lambda>j. jobCall j < n) js" "filter commitJob js = []" for n js
    using that
  proof (induction js)
    case Nil
    show ?case by simp
  next
    case (Cons j js)
    then show ?case by (cases j) (simp_all split: if_splits)
  qed
  from assms t j show ?thesis
    by (simp add: scheduled_def commitsPending_def batchStart_def)
qed

lemma reachable_batchStart:
  "reachable s \<Longrightarrow> shouldUpdateState s \<Longrightarrow> batchStart s \<and> composeNextState s = (\<lambda>x. x)"
  by (rule scheduled_batchStart) (simp_all add: reachable_scheduled)

section \<open>Properties of setState\<close>

text \<open>
  Claim C1. Calls of \<^verbatim>\<open>setState\<close> made one after the other at the start of a batch
  window compose their steps in call order, one step per call, and leave the state as it
  is; when the event loop has run, the state is the left-to-right merge of the updates on
  top of the state the batch started from, each function having been given the merge of
  the calls before it.
\<close>

theorem batch_commits_merge_in_call_order:
  assumes "batchStart s" "composeNextState s = (\<lambda>x. x)"
  shows "composeNextState (setStates us s) = (\<lambda>x. foldl mergeUpdate x us) \<and>
         state (setStates us s) = state s \<and>
         state (run (setStates us s)) = foldl mergeUpdate (state s) us"
proof (cases "us = []")
  case True
  with assms run_no_batch [of s] show ?thesis by simp
next
  case False
  have "storeReady s"
    using assms(1) by (simp add: batchStart_def)
  then have "composeNextState (setStates us s) = (\<lambda>x. foldl mergeUpdate x us) \<and>
         state (setStates us s) = state s"
    using assms(2) by (simp add: setStates_ready)
  with run_batch [OF assms False] show ?thesis by blast
qed

theorem batch_commits_merge_witness:
  "batchStart apples \<and> composeNextState apples = (\<lambda>x. x) \<and>
   state (run (setStates [Partial [''apples'' \<mapsto> Num 3], Fn addApple, Fn addApple] apples))
     = [''apples'' \<mapsto> Num 5]"
  using batch_commits_merge_in_call_order
          [of apples "[Partial [''apples'' \<mapsto> Num 3], Fn addApple, Fn addApple]"]
  by (simp add: batchStart_def apples_eq initial_def mergeUpdate_def addApple_def)

text \<open>
  Claim C3. A batch of at least one \<^verbatim>\<open>setState\<close> call commits once, and the commit is
  followed at once by one call for each entry of the registry, in registration order
  and nothing in between; the arguments are objects at consecutive new addresses, each
  holding the committed state. Besides these calls the run makes none: a listener is
  called as often as it is registered, once when it is registered once.
\<close>

theorem commit_calls_listeners_once_in_order:
  assumes "batchStart s" "composeNextState s = (\<lambda>x. x)" "us \<noteq> []"
  shows "\<exists>pre a post.
     trace (run (setStates us s))
       = trace s @ pre @ Commit
         # map (\<lambda>i. Call (listeners s ! i) (Ref (a + i))) [0..<length (listeners s)] @ post \<and>
     (\<forall>e\<in>set pre \<union> set post. \<exists>c r. e = Settle c r) \<and>
     length (heap s) \<le> a \<and>
     (\<forall>i<length (listeners s).
        a + i < length (heap (run (setStates us s))) \<and>
        heap (run (setStates us s)) ! (a + i) = Obj Standard (state (run (setStates us s)))) \<and>
     (\<forall>l. callsOf l (trace (run (setStates us s)))
            = callsOf l (trace s) + count_list (listeners s) l) \<and>
     state (run (setStates us s)) = foldl mergeUpdate (state s) us"
proof -
  let ?F = "run (setStates us s)"
  let ?M = "foldl mergeUpdate (state s) us"
  let ?L = "listeners s"
  from run_batch [OF assms] obtain pre ext where
    pre: "\<forall>e\<in>set pre. \<exists>c r. e = Settle c r \<and> c < length (promises s)"
    and st: "state ?F = ?M"
    and hp: "heap ?F = heap s @ ext @ Obj Standard (state s) # replicate (length ?L + length us) (Obj Standard ?M)"
    and tr: "trace ?F = trace s @ pre @ Commit
         # callsFrom (Suc (length (heap s) + length ext)) ?L
         @ settlesFrom (length (promises s))
             (Suc (length (heap s) + length ext + length ?L)) (length us)"
    by blast
  let ?a = "Suc (length (heap s) + length ext)"
  let ?post = "settlesFrom (length (promises s)) (?a + length ?L) (length us)"
  have cells: "?a + i < length (heap ?F) \<and> heap ?F ! (?a + i) = Obj Standard ?M"
    if "i < length ?L" for i
    using that nth_copies [of i "length ?L + length us" "heap s" ext "Obj Standard (state s)" "Obj Standard ?M"]
    by (simp add: hp)
  show ?thesis
  proof (rule exI [of _ pre], rule exI [of _ ?a], rule exI [of _ ?post], intro conjI)
    show "trace ?F = trace s @ pre @ Commit
         # map (\<lambda>i. Call (?L ! i) (Ref (?a + i))) [0..<length ?L] @ ?post"
      using tr by (simp add: callsFrom_map)
    show "\<forall>e\<in>set pre \<union> set ?post. \<exists>c r. e = Settle c r"
      using pre settlesFrom_only_settles by blast
    show "length (heap s) \<le> ?a" by simp
    show "\<forall>i<length ?L. ?a + i < length (heap ?F) \<and> heap ?F ! (?a + i) = Obj Standard (state ?F)"
      using cells st by simp
    show "\<forall>l. callsOf l (trace ?F) = callsOf l (trace s) + count_list ?L l"
    proof
      fix l
      have "callsOf l pre = 0"
        using pre by (intro callsOf_settles) blast
      moreover have "callsOf l ?post = 0"
        using settlesFrom_only_settles by (rule callsOf_settles)
      ultimately show "callsOf l (trace ?F) = callsOf l (trace s) + count_list ?L l"
        using tr by (simp add: callsOf_append callsOf_callsFrom)
    qed
    show "state ?F = ?M" by (rule st)
  qed
qed

theorem commit_calls_listeners_witness:
  "batchStart watched \<and> composeNextState watched = (\<lambda>x. x) \<and>
   (\<exists>pre a post.
      trace (run (setStates [Partial [''apples'' \<mapsto> Num 3]] watched))
        = pre @ Commit # [Call 5 (Ref a), Call 8 (Ref (Suc a))] @ post \<and>
      heap (run (setStates [Partial [''apples'' \<mapsto> Num 3]] watched)) ! a
        = Obj Standard [''apples'' \<mapsto> Num 3] \<and>
      heap (run (setStates [Partial [''apples'' \<mapsto> Num 3]] watched)) ! Suc a
        = Obj Standard [''apples'' \<mapsto> Num 3])"
proof -
  let ?us = "[Partial [''apples'' \<mapsto> Num 3]]"
  let ?F = "run (setStates ?us watched)"
  have h: "batchStart watched" "composeNextState watched = (\<lambda>x. x)" "?us \<noteq> []"
    by (simp_all add: batchStart_def watched_eq initial_def)
  have w: "listeners watched = [5, 8]" "trace watched = []"
    "state watched = [''apples'' \<mapsto> Num 2]"
    by (simp_all add: watched_eq initial_def)
  from commit_calls_listeners_once_in_order [OF h] obtain pre a post where
    t: "trace ?F = trace watched @ pre @ Commit
         # map (\<lambda>i. Call (listeners watched ! i) (Ref (a + i))) [0..<length (listeners watched)]
         @ post"
    and c: "\<forall>i<length (listeners watched). a + i < length (heap ?F) \<and>
              heap ?F ! (a + i) = Obj Standard (state ?F)"
    and st: "state ?F = foldl mergeUpdate (state watched) ?us"
    by blast
  have m: "state ?F = [''apples'' \<mapsto> Num 3]"
    using st by (simp add: w mergeUpdate_def)
  have "trace ?F = pre @ Commit # [Call 5 (Ref a), Call 8 (Ref (Suc a))] @ post"
    using t by (simp add: w)
  moreover have "heap ?F ! a = Obj Standard [''apples'' \<mapsto> Num 3]"
    using c [rule_format, of 0] m by (simp add: w)
  moreover have "heap ?F ! Suc a = Obj Standard [''apples'' \<mapsto> Num 3]"
    using c [rule_format, of 1] m by (simp add: w)
  ultimately show ?thesis
    using h by blast
qed

text \<open>
  Claim C7. In a batch of at least one \<^verbatim>\<open>setState\<close> call, the promise returned by
  each call is pending after the calls and fulfilled when the event loop has run; the
  promises are settled after the commit and the listener calls that follow it, in call
  order, and nothing of the batch is settled before the commit; each is fulfilled with
  an object at a new address of its own that holds the committed state.
\<close>

theorem setState_promises_resolve_after_commit:
  assumes "batchStart s" "composeNextState s = (\<lambda>x. x)" "us \<noteq> []"
  shows "\<exists>pre calls b.
     trace (run (setStates us s))
       = trace s @ pre @ Commit # calls
         @ map (\<lambda>i. Settle (length (promises s) + i) (Fulfilled (Ref (b + i)))) [0..<length us] \<and>
     (\<forall>e\<in>set pre. \<exists>c r. e = Settle c r \<and> c < length (promises s)) \<and>
     (\<forall>e\<in>set calls. \<exists>l v. e = Call l v) \<and>
     length (heap s) \<le> b \<and>
     (\<forall>i<length us.
        fst (setState (us ! i) (setStates (take i us) s)) = Inr (length (promises s) + i) \<and>
        promises (setStates us s) ! (length (promises s) + i) = Pending \<and>
        promises (run (setStates us s)) ! (length (promises s) + i)
          = Done (Fulfilled (Ref (b + i))) \<and>
        b + i < length (heap (run (setStates us s))) \<and>
        heap (run (setStates us s)) ! (b + i) = Obj Standard (state (run (setStates us s)))) \<and>
     state (run (setStates us s)) = foldl mergeUpdate (state s) us"
proof -
  let ?F = "run (setStates us s)"
  let ?M = "foldl mergeUpdate (state s) us"
  let ?L = "listeners s"
  let ?n = "length (promises s)"
  have ready: "storeReady s"
    using assms(1) by (simp add: batchStart_def)
  from run_batch [OF assms] obtain pre ext where
    pre: "\<forall>e\<in>set pre. \<exists>c r. e = Settle c r \<and> c < ?n"
    and st: "state ?F = ?M"
    and hp: "heap ?F = heap s @ ext @ Obj Standard (state s) # replicate (length ?L + length us) (Obj Standard ?M)"
    and tr: "trace ?F = trace s @ pre @ Commit
         # callsFrom (Suc (length (heap s) + length ext)) ?L
         @ settlesFrom ?n (Suc (length (heap s) + length ext + length ?L)) (length us)"
    and pr: "\<forall>i<length us. promises ?F ! (?n + i)
        = Done (Fulfilled (Ref (Suc (length (heap s) + length ext + length ?L) + i)))"
    by blast
  let ?a = "Suc (length (heap s) + length ext)"
  let ?b = "Suc (length (heap s) + length ext + length ?L)"
  have cells: "?b + i < length (heap ?F) \<and> heap ?F ! (?b + i) = Obj Standard ?M"
    if "i < length us" for i
    using that
      nth_copies [of "length ?L + i" "length ?L + length us" "heap s" ext "Obj Standard (state s)" "Obj Standard ?M"]
    by (simp add: hp add.assoc)
  have pend: "promises (setStates us s) ! (?n + i) = Pending" if "i < length us" for i
    using ready that by (simp add: setStates_ready nth_append)
  show ?thesis
  proof (rule exI [of _ pre], rule exI [of _ "callsFrom ?a ?L"], rule exI [of _ ?b],
      intro conjI)
    show "trace ?F = trace s @ pre @ Commit # callsFrom ?a ?L
         @ map (\<lambda>i. Settle (?n + i) (Fulfilled (Ref (?b + i)))) [0..<length us]"
      using tr by (simp add: settlesFrom_map)
    show "\<forall>e\<in>set pre. \<exists>c r. e = Settle c r \<and> c < ?n"
      by (rule pre)
    show "\<forall>e\<in>set (callsFrom ?a ?L). \<exists>l v. e = Call l v"
      by (auto simp: callsFrom_map)
    show "length (heap s) \<le> ?b" by simp
    show "\<forall>i<length us.
        fst (setState (us ! i) (setStates (take i us) s)) = Inr (?n + i) \<and>
        promises (setStates us s) ! (?n + i) = Pending \<and>
        promises ?F ! (?n + i) = Done (Fulfilled (Ref (?b + i))) \<and>
        ?b + i < length (heap ?F) \<and>
        heap ?F ! (?b + i) = Obj Standard (state ?F)"
      using pr cells pend st setStates_returns [OF ready] by simp
    show "state ?F = ?M" by (rule st)
  qed
qed

theorem setState_promises_witness:
  "batchStart apples \<and> composeNextState apples = (\<lambda>x. x) \<and>
   fst (setState (Fn addApple) apples) = Inr 0 \<and>
   fst (setState (Fn addApple) (snd (setState (Fn addApple) apples))) = Inr 1 \<and>
   (\<exists>b. promises (run (setStates [Fn addApple, Fn addApple] apples)) ! 0
          = Done (Fulfilled (Ref b)) \<and>
        promises (run (setStates [Fn addApple, Fn addApple] apples)) ! 1
          = Done (Fulfilled (Ref (Suc b))) \<and>
        heap (run (setStates [Fn addApple, Fn addApple] apples)) ! b
          = Obj Standard [''apples'' \<mapsto> Num 4] \<and>
        heap (run (setStates [Fn addApple, Fn addApple] apples)) ! Suc b
          = Obj Standard [''apples'' \<mapsto> Num 4])"
proof -
  let ?us = "[Fn addApple, Fn addApple]"
  let ?F = "run (setStates ?us apples)"
  have h: "batchStart apples" "composeNextState apples = (\<lambda>x. x)" "?us \<noteq> []"
    by (simp_all add: batchStart_def apples_eq initial_def)
  have w: "promises apples = []" "state apples = [''apples'' \<mapsto> Num 2]"
    by (simp_all add: apples_eq initial_def)
  from setState_promises_resolve_after_commit [OF h] obtain b where
    p: "\<forall>i<length ?us.
        fst (setState (?us ! i) (setStates (take i ?us) apples))
          = Inr (length (promises apples) + i) \<and>
        promises (setStates ?us apples) ! (length (promises apples) + i) = Pending \<and>
        promises ?F ! (length (promises apples) + i) = Done (Fulfilled (Ref (b + i))) \<and>
        b + i < length (heap ?F) \<and>
        heap ?F ! (b + i) = Obj Standard (state ?F)"
    and st: "state ?F = foldl mergeUpdate (state apples) ?us"
    by blast
  have m: "state ?F = [''apples'' \<mapsto> Num 4]"
    using st by (simp add: w mergeUpdate_def addApple_def)
  have 0: "fst (setState (Fn addApple) apples) = Inr 0 \<and>
        promises ?F ! 0 = Done (Fulfilled (Ref b)) \<and> heap ?F ! b = Obj Standard [''apples'' \<mapsto> Num 4]"
    using p [rule_format, of 0] m by (simp add: w)
  have 1: "fst (setState (Fn addApple) (snd (setState (Fn addApple) apples))) = Inr 1 \<and>
        promises ?F ! 1 = Done (Fulfilled (Ref (Suc b))) \<and>
        heap ?F ! Suc b = Obj Standard [''apples'' \<mapsto> Num 4]"
    using p [rule_format, of 1] m by (simp add: w)
  from 0 1 h show ?thesis
    by blast
qed

end
